theory Spec2Isabelle
  imports Main "HOL-Library.Multiset"
begin

section \<open>Exceptions\<close>

text \<open>
  The Python exceptions that the code of \<^verbatim>\<open>fics-agent.py\<close> can meet. A function that can
  raise returns \<open>exn + 'a\<close>, with \<open>Inl\<close> for the exception.
\<close>

datatype exn =
    KeyError string
  | UnicodeDecodeError
  | EOFError
  | OSError
  | IntegrityError
  | OperationalError
  | KeyboardInterrupt
  | SystemExit

section \<open>Player\<close>

text \<open>
  \<^verbatim>\<open>class Player\<close> defines neither \<^verbatim>\<open>__eq__\<close> nor \<^verbatim>\<open>__hash__\<close>, so two Player objects
  are equal only when they are the same object. The field \<open>oid\<close> is that object identity
  (Python's \<^verbatim>\<open>id(self)\<close>); the other three fields are the attributes set by
  \<^verbatim>\<open>__init__\<close>. The rating is the string matched by the first group of the pattern: the
  code never converts it.
\<close>

record player =
  oid :: nat
  rating :: string
  status :: string
  name :: string

definition STATUSES :: "string \<rightharpoonup> string" where
  "STATUSES = map_of
     [(''^'', ''INGAME''),
      (''~'', ''SIMUL_MATCH''),
      ('':'', ''NOT_OPEN''),
      (''#'', ''EXAMINING''),
      (''.'', ''INACTIVE''),
      (''&'', ''INTOURNAMENT'')]"

text \<open>\<^verbatim>\<open>self.status = self.STATUSES[status]\<close> raises KeyError on a key the dict lacks.\<close>

definition Player_init :: "nat \<Rightarrow> string \<Rightarrow> string \<Rightarrow> string \<Rightarrow> exn + player" where
  "Player_init i r s n =
     (case STATUSES s of
        None \<Rightarrow> Inl (KeyError s)
      | Some st \<Rightarrow> Inr \<lparr>oid = i, rating = r, status = st, name = n\<rparr>)"

section \<open>The reply parser of Fics.who\<close>

text \<open>\<^verbatim>\<open>bytes.decode('ascii')\<close>: a byte of 128 or more raises UnicodeDecodeError.\<close>

definition decode_ascii :: "string \<Rightarrow> exn + string" where
  "decode_ascii b = (if list_all (\<lambda>c. of_char c < (128::nat)) b then Inr b else Inl UnicodeDecodeError)"

text \<open>
  \<^verbatim>\<open>str.split()\<close> with no argument splits at runs of whitespace and returns no empty
  string. Among the ASCII characters Python counts as whitespace the codes 9 to 13, 28 to
  31 and 32.
\<close>

definition is_space :: "char \<Rightarrow> bool" where
  "is_space c = (let k = (of_char c :: nat) in (9 \<le> k \<and> k \<le> 13) \<or> (28 \<le> k \<and> k \<le> 32))"

fun split_acc :: "string \<Rightarrow> string \<Rightarrow> string list" where
  "split_acc w [] = (if w = [] then [] else [w])"
| "split_acc w (c # cs) =
     (if is_space c then (if w = [] then split_acc [] cs else w # split_acc [] cs)
      else split_acc (w @ [c]) cs)"

definition str_split :: "string \<Rightarrow> string list" where
  "str_split s = split_acc [] s"

text \<open>
  \<^verbatim>\<open>WHO_REGEX = re.compile('([0-9]+)([^0-9])(.+)')\<close>, used with \<^verbatim>\<open>fullmatch\<close>. The first
  group has to be the longest run of leading digits, since the character after it is not
  a digit; the second group is that character; the third is the rest, which must be
  non-empty and, as \<^verbatim>\<open>.\<close> does, must not contain a newline. The result is the tuple of
  \<^verbatim>\<open>m.groups()\<close>, or None when the token does not match.
\<close>

definition is_digit :: "char \<Rightarrow> bool" where
  "is_digit c = (let k = (of_char c :: nat) in 48 \<le> k \<and> k \<le> 57)"

definition WHO_REGEX_fullmatch :: "string \<Rightarrow> (string \<times> string \<times> string) option" where
  "WHO_REGEX_fullmatch s =
     (let ds = takeWhile is_digit s in
      case dropWhile is_digit s of
        [] \<Rightarrow> None
      | c # n \<Rightarrow>
          if ds \<noteq> [] \<and> n \<noteq> [] \<and> CHR 0x0A \<notin> set n then Some (ds, [c], n) else None)"

text \<open>
  Lines 66 to 76 of the source: the lazy pipeline
  \<^verbatim>\<open>frozenset(map(Player, map(groups, filter(None, map(fullmatch, playerStrings)))))\<close>.
  The frozenset constructor pulls the tokens through the pipeline one at a time, in
  order: a token that does not match is dropped by \<^verbatim>\<open>filter(None, ...)\<close>, a token that
  matches is turned into a new Player object, and the first exception raised by
  \<^verbatim>\<open>Player.__init__\<close> leaves the whole expression. Every Player built is a new object;
  the model numbers them from \<open>i\<close> upwards. The result lists the elements of the frozenset
  in the order they were built; Python promises no iteration order for the set.
\<close>

fun frozenset_players :: "nat \<Rightarrow> string list \<Rightarrow> exn + player list" where
  "frozenset_players i [] = Inr []"
| "frozenset_players i (t # ts) =
     (case WHO_REGEX_fullmatch t of
        None \<Rightarrow> frozenset_players i ts
      | Some (r, s, n) \<Rightarrow>
          (case Player_init i r s n of
             Inl e \<Rightarrow> Inl e
           | Inr p \<Rightarrow>
               (case frozenset_players (Suc i) ts of
                  Inl e \<Rightarrow> Inl e
                | Inr ps \<Rightarrow> Inr (p # ps))))"

section \<open>The telnet connection\<close>

text \<open>
  \<^verbatim>\<open>self.tn\<close> is a \<^verbatim>\<open>telnetlib.Telnet\<close> object of the Python standard library. The model
  keeps what the code can observe of it, after the library's documentation:
  \<^item> \<open>cooked\<close> is the text the server delivers before it closes the connection;
  \<^item> \<open>sock_ok\<close> tells whether the socket still accepts data (\<^verbatim>\<open>write\<close> "may raise
    OSError if the connection is closed");
  \<^item> \<open>sent\<close> is the list of byte strings written so far.
  \<^verbatim>\<open>read_until(expected)\<close> returns the text up to and including the first occurrence of
  \<open>expected\<close>; when the connection ends first it returns whatever is left, and raises
  EOFError when nothing is left. A server that stays silent without closing makes the
  call block for ever; the model does not cover that case.
\<close>

record telnet =
  cooked :: string
  sock_ok :: bool
  sent :: "string list"

definition tn_write :: "telnet \<Rightarrow> string \<Rightarrow> exn + telnet" where
  "tn_write tn b = (if sock_ok tn then Inr (tn\<lparr>sent := sent tn @ [b]\<rparr>) else Inl OSError)"

fun find_marker :: "string \<Rightarrow> string \<Rightarrow> (string \<times> string) option" where
  "find_marker m [] = (if m = [] then Some ([], []) else None)"
| "find_marker m (c # cs) =
     (if take (length m) (c # cs) = m then Some (m, drop (length m) (c # cs))
      else (case find_marker m cs of None \<Rightarrow> None | Some (a, b) \<Rightarrow> Some (c # a, b)))"

definition tn_read_until :: "telnet \<Rightarrow> string \<Rightarrow> (exn + string) \<times> telnet" where
  "tn_read_until tn expected =
     (case find_marker expected (cooked tn) of
        Some (a, b) \<Rightarrow> (Inr a, tn\<lparr>cooked := b\<rparr>)
      | None \<Rightarrow>
          if cooked tn = [] then (Inl EOFError, tn)
          else (Inr (cooked tn), tn\<lparr>cooked := []\<rparr>))"

section \<open>Fics\<close>

text \<open>\<^verbatim>\<open>Fics.disconnect\<close>: \<^verbatim>\<open>self.tn.write(b"exit\n")\<close>, and nothing else.\<close>

definition disconnect :: "telnet \<Rightarrow> exn + telnet" where
  "disconnect tn = tn_write tn (''exit'' @ [CHR 0x0A])"

text \<open>
  \<^verbatim>\<open>Fics.who\<close>, lines 58 to 64: write the command, read up to the completion marker,
  decode and split, then read up to the prompt. An exception of any step leaves the
  method.
\<close>

definition who_playerStrings :: "telnet \<Rightarrow> (exn + string list) \<times> telnet" where
  "who_playerStrings tn =
     (case tn_write tn (''who'' @ [CHR 0x0A]) of
        Inl e \<Rightarrow> (Inl e, tn)
      | Inr tn1 \<Rightarrow>
          (case tn_read_until tn1 ''players displayed'' of
             (Inl e, tn2) \<Rightarrow> (Inl e, tn2)
           | (Inr raw, tn2) \<Rightarrow>
               (case decode_ascii raw of
                  Inl e \<Rightarrow> (Inl e, tn2)
                | Inr text \<Rightarrow>
                    (let playerStrings = str_split text in
                     case tn_read_until tn2 ''fics%'' of
                       (Inl e, tn3) \<Rightarrow> (Inl e, tn3)
                     | (Inr prompt, tn3) \<Rightarrow> (Inr playerStrings, tn3)))))"

text \<open>\<^verbatim>\<open>Fics.who\<close> as a whole: lines 58 to 64, then the frozenset of lines 66 to 77.\<close>

definition who :: "telnet \<Rightarrow> (exn + player list) \<times> telnet" where
  "who tn =
     (case who_playerStrings tn of
        (Inl e, tn') \<Rightarrow> (Inl e, tn')
      | (Inr playerStrings, tn') \<Rightarrow> (frozenset_players 0 playerStrings, tn'))"

section \<open>The store\<close>

text \<open>
  The two tables that \<^verbatim>\<open>setupDB\<close> creates (lines 94 to 110). A row of \<^verbatim>\<open>players\<close> is
  the pair of its id and its name. Both tables have
  \<^verbatim>\<open>INTEGER PRIMARY KEY AUTOINCREMENT\<close>: a new row gets an id one above the largest id
  the table ever had, which SQLite keeps in \<^verbatim>\<open>sqlite_sequence\<close> (the two \<open>_seq\<close>
  fields).
\<close>

text \<open>
  The column \<^verbatim>\<open>rating\<close> is declared \<^verbatim>\<open>INT\<close> (line 105), and the code binds the digit
  string of the Player to it (line 163). SQLite applies the integer affinity of the
  column when it stores the row: a text that is a decimal integer is stored as that
  integer when it fits 64 bits, that is below \<open>2\<^sup>6\<^sup>3\<close>, and as a floating-point number
  otherwise. So \<^verbatim>\<open>'007'\<close> is stored as the integer 7. \<open>SQL_REAL n\<close> stands for the
  floating-point number that SQLite makes of the decimal \<open>n\<close>; the model keeps \<open>n\<close> and
  does not compute the rounding. A text that is not a digit string is kept or converted by
  rules the model does not compute either: \<open>SQL_OTHER s\<close> stands for what the affinity
  makes of the text \<open>s\<close>. The pattern of \<^verbatim>\<open>who\<close> only lets digit strings through.
\<close>

datatype sql_value = SQL_INTEGER int | SQL_REAL int | SQL_OTHER string

definition decimal :: "string \<Rightarrow> int" where
  "decimal s = fold (\<lambda>c n. 10 * n + (of_char c - 48)) s 0"

definition INT_affinity :: "string \<Rightarrow> sql_value" where
  "INT_affinity s =
     (if s \<noteq> [] \<and> list_all is_digit s then
        (if decimal s < 9223372036854775808 then SQL_INTEGER (decimal s) else SQL_REAL (decimal s))
      else SQL_OTHER s)"

record observation =
  obs_id :: nat
  obs_time :: nat
  playerid :: nat
  obs_rating :: sql_value
  obs_status :: string

record database =
  players :: "(nat \<times> string) list"
  observations :: "observation list"
  players_seq :: nat
  observations_seq :: nat

definition next_rowid :: "nat \<Rightarrow> nat list \<Rightarrow> nat" where
  "next_rowid seq ids = Suc (fold max ids seq)"

text \<open>\<^verbatim>\<open>SELECT name FROM players\<close>\<close>

definition SELECT_name :: "database \<Rightarrow> string list" where
  "SELECT_name db = map snd (players db)"

text \<open>
  \<^verbatim>\<open>INSERT INTO players (name) VALUES (?)\<close>: the column is \<^verbatim>\<open>UNIQUE\<close>, so a name the
  table already holds raises sqlite3.IntegrityError and the statement changes nothing.
\<close>

definition INSERT_player :: "string \<Rightarrow> database \<Rightarrow> exn + database" where
  "INSERT_player n db =
     (if n \<in> set (SELECT_name db) then Inl IntegrityError
      else (let i = next_rowid (players_seq db) (map fst (players db))
            in Inr (db\<lparr>players := players db @ [(i, n)], players_seq := i\<rparr>)))"

text \<open>
  \<^verbatim>\<open>INSERT INTO observations (playerid, rating, status) SELECT id, :rating, :status FROM
  players WHERE name = :name\<close>: one new row for every row of \<^verbatim>\<open>players\<close> with that name,
  stamped with the store's current time; the rating goes through the affinity of its
  column, the status is text in a \<^verbatim>\<open>TEXT\<close> column.
\<close>

definition add_observation :: "nat \<Rightarrow> string \<Rightarrow> string \<Rightarrow> nat \<Rightarrow> database \<Rightarrow> database" where
  "add_observation t r s pid db =
     (let i = next_rowid (observations_seq db) (map obs_id (observations db))
      in db\<lparr>observations := observations db @
               [\<lparr>obs_id = i, obs_time = t, playerid = pid, obs_rating = INT_affinity r,
                 obs_status = s\<rparr>],
             observations_seq := i\<rparr>)"

definition INSERT_observation :: "nat \<Rightarrow> player \<Rightarrow> database \<Rightarrow> exn + database" where
  "INSERT_observation t p db =
     Inr (fold (add_observation t (rating p) (status p))
            (map fst (filter (\<lambda>row. snd row = name p) (players db))) db)"

text \<open>
  A connection of the \<^verbatim>\<open>sqlite3\<close> module on the file. \<open>durable\<close> is the committed content
  of the file, which is what every other connection and every later cycle sees. \<open>txn\<close> is
  the content as seen inside the connection's open write transaction, if any: the module
  opens one before the first INSERT, \<^verbatim>\<open>commit\<close> makes it durable and \<^verbatim>\<open>rollback\<close>
  drops it. \<open>budget\<close> is the number of write operations the store still completes before
  one fails with sqlite3.OperationalError (a full disk, an I/O error); \<open>None\<close> is a store
  that never fails.
\<close>

record connection =
  durable :: database
  txn :: "database option"
  budget :: "nat option"

definition connect :: "database \<Rightarrow> nat option \<Rightarrow> connection" where
  "connect file b = \<lparr>durable = file, txn = None, budget = b\<rparr>"

text \<open>What a statement run on the connection sees.\<close>

definition visible :: "connection \<Rightarrow> database" where
  "visible con = (case txn con of None \<Rightarrow> durable con | Some d \<Rightarrow> d)"

text \<open>
  One INSERT on the connection: it opens the transaction if none is open; a statement
  that raises changes no row and leaves the transaction open.
\<close>

definition execute_write :: "(database \<Rightarrow> exn + database) \<Rightarrow> connection \<Rightarrow> exn option \<times> connection" where
  "execute_write stmt con =
     (if budget con = Some 0 then (Some OperationalError, con)
      else (let con1 = con\<lparr>budget := map_option (\<lambda>k. k - 1) (budget con)\<rparr>;
                db = visible con1
            in case stmt db of
                 Inl e \<Rightarrow> (Some e, con1\<lparr>txn := Some db\<rparr>)
               | Inr db' \<Rightarrow> (None, con1\<lparr>txn := Some db'\<rparr>)))"

fun executemany :: "('a \<Rightarrow> database \<Rightarrow> exn + database) \<Rightarrow> 'a list \<Rightarrow> connection \<Rightarrow> exn option \<times> connection" where
  "executemany stmt [] con = (None, con)"
| "executemany stmt (x # xs) con =
     (case execute_write (stmt x) con of
        (Some e, con') \<Rightarrow> (Some e, con')
      | (None, con') \<Rightarrow> executemany stmt xs con')"

definition commit :: "connection \<Rightarrow> exn option \<times> connection" where
  "commit con =
     (case txn con of
        None \<Rightarrow> (None, con)
      | Some d \<Rightarrow>
          if budget con = Some 0 then (Some OperationalError, con)
          else (None, con\<lparr>durable := d, txn := None, budget := map_option (\<lambda>k. k - 1) (budget con)\<rparr>))"

definition rollback :: "connection \<Rightarrow> connection" where
  "rollback con = con\<lparr>txn := None\<rparr>"

text \<open>
  \<^verbatim>\<open>with con:\<close> commits when the block ends normally and rolls back when it raises; the
  exception goes on to the caller.
\<close>

definition with_con :: "(connection \<Rightarrow> exn option \<times> connection) \<Rightarrow> connection \<Rightarrow> exn option \<times> connection" where
  "with_con body con =
     (case body con of
        (Some e, con') \<Rightarrow> (Some e, rollback con')
      | (None, con') \<Rightarrow> commit con')"

text \<open>
  Another connection on the same file (the SELECT of the cycle holds no lock once it has
  been read): it commits \<^verbatim>\<open>INSERT INTO players\<close> for the given names; an insert of its
  own that fails is skipped. The other connection only inserts: no row of either table is
  ever deleted or changed, by this program or by another.
\<close>

definition other_writer :: "string list \<Rightarrow> connection \<Rightarrow> connection" where
  "other_writer ns con =
     con\<lparr>durable := fold (\<lambda>n d. case INSERT_player n d of Inl e \<Rightarrow> d | Inr d' \<Rightarrow> d') ns (durable con)\<rparr>"

section \<open>FicsAgent.loop\<close>

text \<open>
  What the world around one pass of the \<^verbatim>\<open>while\<close> loop does: the names another
  connection commits between the SELECT and the first INSERT of the pass, the number of
  write operations the store completes before failing, the time the store stamps on the
  k-th observation statement, and whether KeyboardInterrupt arrives during
  \<^verbatim>\<open>time.sleep(10)\<close>.
\<close>

record cycle_env =
  racing :: "string list"
  io_budget :: "nat option"
  clock :: "nat \<Rightarrow> nat"
  interrupt :: bool

text \<open>
  Lines 146 to 169, the writes of one pass: the INSERTs of the new names, the
  INSERT ... SELECT of one observation per Player of the frozenset (walked here in the
  order the Players were built), and \<^verbatim>\<open>con.commit()\<close>. An exception ends the block at
  the statement that raises it.
\<close>

definition write_block :: "cycle_env \<Rightarrow> string list \<Rightarrow> player list \<Rightarrow> connection \<Rightarrow> exn option \<times> connection" where
  "write_block env newPlayers playersFics con =
     (case executemany INSERT_player newPlayers con of
        (Some e, con1) \<Rightarrow> (Some e, con1)
      | (None, con1) \<Rightarrow>
          (case executemany (\<lambda>(k, p). INSERT_observation (clock env k) p)
                  (enumerate 0 playersFics) con1 of
             (Some e, con2) \<Rightarrow> (Some e, con2)
           | (None, con2) \<Rightarrow> commit con2))"

text \<open>
  Lines 123 to 169, the body of the loop after the poll. \<open>newPlayers\<close> is a Python set of
  names; \<^verbatim>\<open>executemany\<close> walks it in an order Python does not promise, and the model
  takes the order of first occurrence. The result is the exception leaving the
  \<^verbatim>\<open>with\<close> block, if any, and the committed content of the file afterwards.
\<close>

definition runCycle :: "cycle_env \<Rightarrow> database \<Rightarrow> player list \<Rightarrow> exn option \<times> database" where
  "runCycle env file playersFics =
     (let con = connect file (io_budget env);
          playersDB = set (SELECT_name (durable con));
          con = other_writer (racing env) con;
          playersFicsSet = remdups (map name playersFics);
          newPlayers = filter (\<lambda>n. n \<notin> playersDB) playersFicsSet;
          (e, con') = with_con (write_block env newPlayers playersFics) con
      in (e, durable con'))"

text \<open>
  The agent: its telnet connection, the content of the file \<^verbatim>\<open>fics.db\<close>, and the
  attribute \<^verbatim>\<open>cont\<close> that \<^verbatim>\<open>close\<close> sets.
\<close>

record agent =
  fics :: telnet
  fics_db :: database
  cont :: "bool option"

definition close :: "agent \<Rightarrow> exn option \<times> agent" where
  "close a =
     (let a1 = a\<lparr>cont := Some False\<rparr>
      in case disconnect (fics a1) of
           Inl e \<Rightarrow> (Some e, a1)
         | Inr tn \<Rightarrow> (None, a1\<lparr>fics := tn\<rparr>))"

text \<open>
  How a call of \<^verbatim>\<open>loop()\<close> ends: it returns (after the \<^verbatim>\<open>except\<close> clause has run), or
  an exception leaves it; \<open>Running\<close> says that the loop is still going when the described
  passes are over.
\<close>

datatype outcome = Returned | Raised exn | Running

text \<open>
  \<^verbatim>\<open>except (KeyboardInterrupt, SystemExit): self.close()\<close>; every other exception is not
  caught and leaves \<^verbatim>\<open>loop()\<close>.
\<close>

definition except_clause :: "exn \<Rightarrow> agent \<Rightarrow> outcome \<times> agent" where
  "except_clause e a =
     (if e = KeyboardInterrupt \<or> e = SystemExit then
        (case close a of
           (Some e', a') \<Rightarrow> (Raised e', a')
         | (None, a') \<Rightarrow> (Returned, a'))
      else (Raised e, a))"

fun loop :: "cycle_env list \<Rightarrow> agent \<Rightarrow> outcome \<times> agent" where
  "loop [] a = (Running, a)"
| "loop (env # envs) a =
     (case who (fics a) of
        (Inl e, tn) \<Rightarrow> except_clause e (a\<lparr>fics := tn\<rparr>)
      | (Inr playersFics, tn) \<Rightarrow>
          (case runCycle env (fics_db a) playersFics of
             (Some e, db) \<Rightarrow> except_clause e (a\<lparr>fics := tn, fics_db := db\<rparr>)
           | (None, db) \<Rightarrow>
               if interrupt env then except_clause KeyboardInterrupt (a\<lparr>fics := tn, fics_db := db\<rparr>)
               else loop envs (a\<lparr>fics := tn, fics_db := db\<rparr>)))"

section \<open>Notions used to state the properties\<close>

text \<open>The three attributes of a Player, without its identity.\<close>

definition record_value :: "player \<Rightarrow> string \<times> string \<times> string" where
  "record_value p = (rating p, status p, name p)"

text \<open>
  The attributes of the Player that a token gives: \<open>None\<close> for a token that does not
  match the pattern or whose status character is not a key of \<open>STATUSES\<close>.
\<close>

definition token_value :: "string \<Rightarrow> (string \<times> string \<times> string) option" where
  "token_value t =
     (case WHO_REGEX_fullmatch t of
        None \<Rightarrow> None
      | Some (r, s, n) \<Rightarrow> (case STATUSES s of None \<Rightarrow> None | Some st \<Rightarrow> Some (r, st, n)))"

text \<open>A token that matches the pattern with a status character that is no key of \<open>STATUSES\<close>.\<close>

definition unmapped :: "string \<Rightarrow> bool" where
  "unmapped t = (case WHO_REGEX_fullmatch t of None \<Rightarrow> False | Some (r, s, n) \<Rightarrow> STATUSES s = None)"

text \<open>
  The content of the file when the writes of a pass begin: the content before the pass,
  with what the other connection has committed in between.
\<close>

definition raced :: "cycle_env \<Rightarrow> database \<Rightarrow> database" where
  "raced env db = durable (other_writer (racing env) (connect db (io_budget env)))"

text \<open>
  The names of a poll that the table did not hold when the pass read it: the set
  \<^verbatim>\<open>newPlayers\<close> of the source.
\<close>

definition fresh :: "database \<Rightarrow> player list \<Rightarrow> string set" where
  "fresh db ps = name ` set ps - set (SELECT_name db)"

text \<open>
  An observation row records a Player: it points to the row of \<^verbatim>\<open>players\<close> with the
  Player's name and carries the Player's status and the Player's rating as the column
  stores it.
\<close>

definition records_player :: "database \<Rightarrow> observation \<Rightarrow> player \<Rightarrow> bool" where
  "records_player db ob p =
     ((playerid ob, name p) \<in> set (players db) \<and> obs_rating ob = INT_affinity (rating p) \<and>
      obs_status ob = status p)"

text \<open>
  For the examples: the store right after \<^verbatim>\<open>setupDB\<close> has created the two tables, and a
  pass during which no other connection writes, the store does not fail, the clock
  stands still and no interrupt arrives.
\<close>

definition empty_db :: database where
  "empty_db = \<lparr>players = [], observations = [], players_seq = 0, observations_seq = 0\<rparr>"

definition quiet :: cycle_env where
  "quiet = \<lparr>racing = [], io_budget = None, clock = (\<lambda>k. 0), interrupt = False\<rparr>"

section \<open>Properties of the parser\<close>

text \<open>The pattern, as a statement about the token: the three groups are determined.\<close>

lemma WHO_REGEX_fullmatch_iff:
  "WHO_REGEX_fullmatch t = Some (r, s, n) \<longleftrightarrow>
     (\<exists>c. s = [c] \<and> t = r @ c # n \<and> r \<noteq> [] \<and> list_all is_digit r \<and> \<not> is_digit c \<and>
          n \<noteq> [] \<and> CHR 0x0A \<notin> set n)"
proof
  assume "WHO_REGEX_fullmatch t = Some (r, s, n)"
  then obtain c where d: "dropWhile is_digit t = c # n" and r: "r = takeWhile is_digit t"
    and s: "s = [c]" and ne: "r \<noteq> []" "n \<noteq> []" "CHR 0x0A \<notin> set n"
    by (auto simp: WHO_REGEX_fullmatch_def Let_def split: list.splits if_splits)
  have "t = r @ c # n" using d r takeWhile_dropWhile_id [of is_digit t] by simp
  moreover have "list_all is_digit r" using r by (simp add: list_all_iff) (meson set_takeWhileD)
  moreover have "\<not> is_digit c" using d by (metis hd_dropWhile list.sel(1) list.distinct(1))
  ultimately show "\<exists>c. s = [c] \<and> t = r @ c # n \<and> r \<noteq> [] \<and> list_all is_digit r \<and> \<not> is_digit c \<and>
          n \<noteq> [] \<and> CHR 0x0A \<notin> set n" using s ne by blast
next
  assume "\<exists>c. s = [c] \<and> t = r @ c # n \<and> r \<noteq> [] \<and> list_all is_digit r \<and> \<not> is_digit c \<and>
          n \<noteq> [] \<and> CHR 0x0A \<notin> set n"
  then obtain c where h: "s = [c]" "t = r @ c # n" "r \<noteq> []" "list_all is_digit r" "\<not> is_digit c"
     "n \<noteq> []" "CHR 0x0A \<notin> set n" by blast
  have "takeWhile is_digit t = r" using h by (simp add: list_all_iff takeWhile_tail)
  moreover have "dropWhile is_digit t = c # n" using h by (simp add: list_all_iff dropWhile_append3)
  ultimately show "WHO_REGEX_fullmatch t = Some (r, s, n)"
    using h by (simp add: WHO_REGEX_fullmatch_def)
qed

lemma frozenset_players_unmapped:
  "\<exists>t\<in>set ts. unmapped t \<Longrightarrow> \<exists>k. frozenset_players i ts = Inl (KeyError k) \<and> STATUSES k = None"
proof (induction ts arbitrary: i)
  case Nil
  then show ?case by simp
next
  case (Cons t ts)
  show ?case
  proof (cases "WHO_REGEX_fullmatch t")
    case None
    then have "\<exists>t\<in>set ts. unmapped t" using Cons.prems by (auto simp: unmapped_def)
    from Cons.IH [OF this, of i] show ?thesis using None by simp
  next
    case (Some g)
    obtain r s n where g: "g = (r, s, n)" by (cases g)
    show ?thesis
    proof (cases "STATUSES s")
      case None
      then show ?thesis using Some g by (simp add: Player_init_def)
    next
      case (Some st)
      then have "\<exists>t\<in>set ts. unmapped t"
        using Cons.prems \<open>WHO_REGEX_fullmatch t = Some g\<close> g by (auto simp: unmapped_def)
      from Cons.IH [OF this, of "Suc i"] show ?thesis
        using Some \<open>WHO_REGEX_fullmatch t = Some g\<close> g by (auto simp: Player_init_def)
    qed
  qed
qed

lemma frozenset_players_mapped:
  "\<forall>t\<in>set ts. \<not> unmapped t \<Longrightarrow>
   \<exists>ps. frozenset_players i ts = Inr ps \<and> map record_value ps = List.map_filter token_value ts \<and>
        map oid ps = [i ..< i + length ps]"
proof (induction ts arbitrary: i)
  case Nil
  then show ?case by (simp add: map_filter_simps)
next
  case (Cons t ts)
  then have tl: "\<forall>t\<in>set ts. \<not> unmapped t" by simp
  show ?case
  proof (cases "WHO_REGEX_fullmatch t")
    case None
    then have "token_value t = None" by (simp add: token_value_def)
    then show ?thesis using None Cons.IH [OF tl, of i] by (simp add: map_filter_simps)
  next
    case (Some g)
    obtain r s n where g: "g = (r, s, n)" by (cases g)
    then obtain st where st: "STATUSES s = Some st"
      using Cons.prems Some by (auto simp: unmapped_def)
    from Cons.IH [OF tl, of "Suc i"] obtain ps where ps: "frozenset_players (Suc i) ts = Inr ps"
      "map record_value ps = List.map_filter token_value ts" "map oid ps = [Suc i ..< Suc i + length ps]"
      by blast
    have tv: "token_value t = Some (r, st, n)" using Some g st by (simp add: token_value_def)
    have rv: "record_value \<lparr>oid = i, rating = r, status = st, name = n\<rparr> = (r, st, n)"
      by (simp add: record_value_def)
    show ?thesis using Some g st ps tv rv
      by (simp add: Player_init_def map_filter_simps upt_rec)
  qed
qed

lemma frozenset_players_Inr_mapped:
  "frozenset_players i ts = Inr ps \<Longrightarrow> \<forall>t\<in>set ts. \<not> unmapped t"
  using frozenset_players_unmapped [of ts i] by auto

lemma mset_map_filter: "mset (List.map_filter f xs) = image_mset (the \<circ> f) (filter_mset (\<lambda>x. f x \<noteq> None) (mset xs))"
  by (induction xs) (auto simp: map_filter_simps split: option.splits)

lemma length_map_filter_token_value:
  "\<forall>t\<in>set ts. \<not> unmapped t \<Longrightarrow> length (List.map_filter token_value ts) = length (filter (\<lambda>t. WHO_REGEX_fullmatch t \<noteq> None) ts)"
  by (induction ts) (auto simp: map_filter_simps token_value_def unmapped_def split: option.splits)

lemma STATUSES_None_iff:
  "STATUSES s = None \<longleftrightarrow> s \<notin> {''^'', ''~'', '':'', ''#'', ''.'', ''&''}"
  unfolding STATUSES_def map_of_eq_None_iff
  by (simp only: list.simps(15) image_insert fst_conv image_empty list.set)

lemma split_acc_no_space:
  "t \<in> set (split_acc w s) \<Longrightarrow> \<forall>c\<in>set w. \<not> is_space c \<Longrightarrow> \<forall>c\<in>set t. \<not> is_space c"
proof (induction w s rule: split_acc.induct)
  case (1 w)
  then show ?case by (cases "w = []") simp_all
next
  case (2 w c cs)
  show ?case
  proof (cases "is_space c")
    case True
    show ?thesis
    proof (cases "w = []")
      case True
      with \<open>is_space c\<close> "2.prems" "2.IH"(1) show ?thesis by simp
    next
      case False
      with \<open>is_space c\<close> "2.prems" have "t = w \<or> t \<in> set (split_acc [] cs)" by simp
      then show ?thesis using "2.IH"(2) [OF \<open>is_space c\<close> False] "2.prems"(2) by fastforce
    qed
  next
    case False
    with "2.prems" have "t \<in> set (split_acc (w @ [c]) cs)" by simp
    moreover have "\<forall>x\<in>set (w @ [c]). \<not> is_space x" using False "2.prems"(2) by simp
    ultimately show ?thesis using "2.IH"(3) [OF False] by blast
  qed
qed
lemma who_playerStrings_no_space:
  assumes "who_playerStrings tn = (Inr ts, tn')" and "t \<in> set ts"
  shows "\<forall>c\<in>set t. \<not> is_space c"
proof -
  from assms(1) obtain reply where "ts = str_split reply"
    by (auto simp: who_playerStrings_def Let_def split: sum.splits prod.splits)
  with assms(2) show ?thesis using split_acc_no_space [of t "[]" reply] by (simp add: str_split_def)
qed

lemma is_space_newline: "is_space (CHR 0x0A)"
  by (simp add: is_space_def)

text \<open>
  C6. The token \<^verbatim>\<open>1923^GM_Foo\<close> becomes a Player with rating \<^verbatim>\<open>1923\<close> (the digit string;
  the code keeps the matched text), status INGAME and name \<^verbatim>\<open>GM_Foo\<close>. The tokens
  \<^verbatim>\<open>abc\<close> and \<^verbatim>\<open>1923\<close> do not match the pattern and are dropped: the frozenset is built
  without them and nothing is raised, also in a whole reply read by \<^verbatim>\<open>who\<close>.
\<close>

theorem who_parser_examples:
  "frozenset_players 0 [''1923^GM_Foo''] =
     Inr [\<lparr>oid = 0, rating = ''1923'', status = ''INGAME'', name = ''GM_Foo''\<rparr>] \<and>
   WHO_REGEX_fullmatch ''abc'' = None \<and> WHO_REGEX_fullmatch ''1923'' = None \<and>
   frozenset_players 0 [''abc'', ''1923''] = Inr [] \<and>
   who \<lparr>cooked = ''abc 1923^GM_Foo 1923 players displayed fics%'', sock_ok = True, sent = []\<rparr> =
     (Inr [\<lparr>oid = 0, rating = ''1923'', status = ''INGAME'', name = ''GM_Foo''\<rparr>],
      \<lparr>cooked = [], sock_ok = True, sent = [''who'' @ [CHR 0x0A]]\<rparr>)"
  by code_simp

text \<open>
  C1, as the code has it. A token made of digits, one character that is not a digit and
  a non-empty rest matches the pattern; when that character is not one of the six keys
  of \<open>STATUSES\<close>, \<^verbatim>\<open>Player.__init__\<close> raises KeyError, and \<^verbatim>\<open>who\<close> raises it in turn: no
  set of Players is returned for that poll.
\<close>

theorem who_unmapped_status_raises:
  assumes "who_playerStrings tn = (Inr playerStrings, tn')"
    and "r @ c # n \<in> set playerStrings"
    and "r \<noteq> []" and "list_all is_digit r" and "\<not> is_digit c" and "n \<noteq> []"
    and "[c] \<notin> {''^'', ''~'', '':'', ''#'', ''.'', ''&''}"
  shows "\<exists>k. who tn = (Inl (KeyError k), tn') \<and> k \<notin> {''^'', ''~'', '':'', ''#'', ''.'', ''&''}"
proof -
  have "\<forall>x\<in>set (r @ c # n). \<not> is_space x"
    using who_playerStrings_no_space [OF assms(1,2)] .
  then have "CHR 0x0A \<notin> set n" using is_space_newline by auto
  then have m: "WHO_REGEX_fullmatch (r @ c # n) = Some (r, [c], n)"
    using assms by (simp add: WHO_REGEX_fullmatch_iff)
  have "STATUSES [c] = None" using assms(7) STATUSES_None_iff [of "[c]"] by blast
  with m have "unmapped (r @ c # n)" by (simp add: unmapped_def)
  with assms(2) have "\<exists>t\<in>set playerStrings. unmapped t" by blast
  from frozenset_players_unmapped [OF this, of 0]
  obtain k where k: "frozenset_players 0 playerStrings = Inl (KeyError k)" "STATUSES k = None" by blast
  have "who tn = (Inl (KeyError k), tn')" using assms(1) k(1) by (simp add: who_def)
  moreover have "k \<notin> {''^'', ''~'', '':'', ''#'', ''.'', ''&''}"
    using k(2) by (rule STATUSES_None_iff [THEN iffD1])
  ultimately show ?thesis by blast
qed

text \<open>
  The token \<^verbatim>\<open>1923xFoo\<close> is not discarded: the poll raises \<^verbatim>\<open>KeyError('x')\<close>.
\<close>

theorem who_unmapped_status_not_discarded:
  "who \<lparr>cooked = ''1923xFoo players displayed fics%'', sock_ok = True, sent = []\<rparr> =
     (Inl (KeyError ''x''), \<lparr>cooked = [], sock_ok = True, sent = [''who'' @ [CHR 0x0A]]\<rparr>)"
  by code_simp

theorem who_unmapped_status_raises_witness:
  "\<exists>k. who \<lparr>cooked = ''1500^Bob 1923xFoo players displayed fics%'', sock_ok = True, sent = []\<rparr> =
     (Inl (KeyError k), \<lparr>cooked = [], sock_ok = True, sent = [''who'' @ [CHR 0x0A]]\<rparr>) \<and>
     k \<notin> {''^'', ''~'', '':'', ''#'', ''.'', ''&''}"
proof -
  have 1: "who_playerStrings \<lparr>cooked = ''1500^Bob 1923xFoo players displayed fics%'', sock_ok = True, sent = []\<rparr>
     = (Inr [''1500^Bob'', ''1923xFoo'', ''players'', ''displayed''], \<lparr>cooked = [], sock_ok = True, sent = [''who'' @ [CHR 0x0A]]\<rparr>)"
    by code_simp
  have 2: "''1923'' @ CHR ''x'' # ''Foo'' \<in> set [''1500^Bob'', ''1923xFoo'', ''players'', ''displayed'']" by simp
  have 3: "''1923'' \<noteq> []" "''Foo'' \<noteq> []" by simp_all
  have 4: "list_all is_digit ''1923''" by code_simp
  have 5: "\<not> is_digit CHR ''x''" by code_simp
  have 6: "[CHR ''x''] \<notin> {''^'', ''~'', '':'', ''#'', ''.'', ''&''}" by simp
  show ?thesis using who_unmapped_status_raises [OF 1 2 3(1) 4 5 3(2) 6] .
qed

text \<open>
  C7, as the code has it. The frozenset holds Player objects, which are compared by
  identity: every token that matches gives one element of its own, so the number of
  elements is the number of matching tokens, whatever their names. The attributes of the
  elements, taken as a multiset, do not depend on the order of the tokens.
\<close>

theorem who_one_record_per_token:
  assumes "who_playerStrings tn = (Inr ts, tn')" and "fst (who tn) = Inr ps"
  shows "card (set ps) = length (filter (\<lambda>t. WHO_REGEX_fullmatch t \<noteq> None) ts) \<and>
         (\<forall>ts'. mset ts' = mset ts \<longrightarrow>
            (\<exists>ps'. frozenset_players 0 ts' = Inr ps' \<and>
                   mset (map record_value ps') = mset (map record_value ps)))"
proof -
  have fp: "frozenset_players 0 ts = Inr ps" using assms by (simp add: who_def)
  then have ok: "\<forall>t\<in>set ts. \<not> unmapped t" by (rule frozenset_players_Inr_mapped)
  from frozenset_players_mapped [OF ok, of 0] fp
  have v: "map record_value ps = List.map_filter token_value ts" and o: "map oid ps = [0 ..< 0 + length ps]"
    by auto
  have "distinct (map oid ps)" by (simp only: o distinct_upt)
  then have "distinct ps" by (rule distinct_map [THEN iffD1, THEN conjunct1])
  then have "card (set ps) = length ps" by (rule distinct_card)
  also have "\<dots> = length (map record_value ps)" by simp
  also have "\<dots> = length (filter (\<lambda>t. WHO_REGEX_fullmatch t \<noteq> None) ts)"
    by (simp only: v length_map_filter_token_value [OF ok])
  finally have a: "card (set ps) = length (filter (\<lambda>t. WHO_REGEX_fullmatch t \<noteq> None) ts)" .
  have b: "\<exists>ps'. frozenset_players 0 ts' = Inr ps' \<and>
                   mset (map record_value ps') = mset (map record_value ps)" if p: "mset ts' = mset ts" for ts'
  proof -
    have "set ts' = set ts" using p by (rule mset_eq_setD)
    with ok have ok': "\<forall>t\<in>set ts'. \<not> unmapped t" by simp
    from frozenset_players_mapped [OF ok', of 0] obtain ps' where
      ps': "frozenset_players 0 ts' = Inr ps'" "map record_value ps' = List.map_filter token_value ts'" by blast
    have "mset (map record_value ps') = mset (map record_value ps)"
      by (simp only: ps'(2) v mset_map_filter p)
    with ps'(1) show ?thesis by blast
  qed
  from a b show ?thesis by blast
qed

theorem who_one_record_per_token_witness:
  "card (set [\<lparr>oid = 0, rating = ''1500'', status = ''INGAME'', name = ''Bob''\<rparr>,
              \<lparr>oid = 1, rating = ''1600'', status = ''INACTIVE'', name = ''Bob''\<rparr>]) =
     length (filter (\<lambda>t. WHO_REGEX_fullmatch t \<noteq> None) [''1500^Bob'', ''1600.Bob'', ''players'', ''displayed'']) \<and>
   (\<exists>ps'. frozenset_players 0 [''displayed'', ''players'', ''1600.Bob'', ''1500^Bob''] = Inr ps' \<and>
      mset (map record_value ps') =
      mset (map record_value [\<lparr>oid = 0, rating = ''1500'', status = ''INGAME'', name = ''Bob''\<rparr>,
              \<lparr>oid = 1, rating = ''1600'', status = ''INACTIVE'', name = ''Bob''\<rparr>]))"
proof -
  let ?tn = "\<lparr>cooked = ''1500^Bob 1600.Bob players displayed fics%'', sock_ok = True, sent = []\<rparr>"
  have 1: "who_playerStrings ?tn =
      (Inr [''1500^Bob'', ''1600.Bob'', ''players'', ''displayed''],
       \<lparr>cooked = [], sock_ok = True, sent = [''who'' @ [CHR 0x0A]]\<rparr>)"
    by code_simp
  have 2: "fst (who ?tn) =
      Inr [\<lparr>oid = 0, rating = ''1500'', status = ''INGAME'', name = ''Bob''\<rparr>,
           \<lparr>oid = 1, rating = ''1600'', status = ''INACTIVE'', name = ''Bob''\<rparr>]"
    by code_simp
  have 3: "mset [''displayed'', ''players'', ''1600.Bob'', ''1500^Bob''] =
           mset [''1500^Bob'', ''1600.Bob'', ''players'', ''displayed'']"
    by (simp add: add.commute add.left_commute)
  from who_one_record_per_token [OF 1 2] 3 show ?thesis by blast
qed
text \<open>
  Two tokens with the name \<^verbatim>\<open>Bob\<close> give two Players named \<^verbatim>\<open>Bob\<close> in the returned
  set.
\<close>

theorem who_same_name_twice:
  "who \<lparr>cooked = ''1500^Bob 1600.Bob players displayed fics%'', sock_ok = True, sent = []\<rparr> =
     (Inr [\<lparr>oid = 0, rating = ''1500'', status = ''INGAME'', name = ''Bob''\<rparr>,
           \<lparr>oid = 1, rating = ''1600'', status = ''INACTIVE'', name = ''Bob''\<rparr>],
      \<lparr>cooked = [], sock_ok = True, sent = [''who'' @ [CHR 0x0A]]\<rparr>) \<and>
   card (set [\<lparr>oid = 0, rating = ''1500'', status = ''INGAME'', name = ''Bob''\<rparr>,
           \<lparr>oid = 1, rating = ''1600'', status = ''INACTIVE'', name = ''Bob''\<rparr>]) = 2"
proof -
  have "who \<lparr>cooked = ''1500^Bob 1600.Bob players displayed fics%'', sock_ok = True, sent = []\<rparr> =
     (Inr [\<lparr>oid = 0, rating = ''1500'', status = ''INGAME'', name = ''Bob''\<rparr>,
           \<lparr>oid = 1, rating = ''1600'', status = ''INACTIVE'', name = ''Bob''\<rparr>],
      \<lparr>cooked = [], sock_ok = True, sent = [''who'' @ [CHR 0x0A]]\<rparr>)" by code_simp
  then show ?thesis by simp
qed

section \<open>Properties of the store and of one pass of the loop\<close>

lemma fold_max_ge_init: "a \<le> fold max xs (a::nat)"
  by (induction xs arbitrary: a) (auto intro: order_trans [OF max.cobounded2])

lemma fold_max_ge_elem: "x \<in> set xs \<Longrightarrow> x \<le> fold max xs (a::nat)"
proof (induction xs arbitrary: a)
  case Nil
  then show ?case by simp
next
  case (Cons y ys)
  show ?case
  proof (cases "x = y")
    case True
    have "max y a \<le> fold max ys (max y a)" by (rule fold_max_ge_init)
    then show ?thesis using True by simp
  next
    case False
    with Cons.prems have "x \<in> set ys" by simp
    from Cons.IH [OF this] show ?thesis by simp
  qed
qed

lemma next_rowid_fresh: "next_rowid seq ids \<notin> set ids"
proof
  assume "next_rowid seq ids \<in> set ids"
  then have "next_rowid seq ids \<le> fold max ids seq" by (rule fold_max_ge_elem)
  then show False by (simp add: next_rowid_def)
qed

lemma INSERT_player_known:
  "n \<in> set (SELECT_name db) \<Longrightarrow> INSERT_player n db = Inl IntegrityError"
  by (simp add: INSERT_player_def)

lemma INSERT_player_new:
  assumes "n \<notin> set (SELECT_name db)"
  shows "\<exists>i db'. INSERT_player n db = Inr db' \<and> players db' = players db @ [(i, n)] \<and>
           observations db' = observations db \<and> i \<notin> fst ` set (players db)"
  using assms next_rowid_fresh [of "players_seq db" "map fst (players db)"]
  by (simp add: INSERT_player_def Let_def)

lemma INSERT_player_Inr:
  assumes "INSERT_player n db = Inr db'"
  shows "n \<notin> set (SELECT_name db) \<and> SELECT_name db' = SELECT_name db @ [n] \<and>
         observations db' = observations db \<and> (\<exists>i. players db' = players db @ [(i, n)])"
  using assms by (auto simp: INSERT_player_def Let_def SELECT_name_def split: if_splits)

lemma INSERT_player_Inl: "INSERT_player n db = Inl e \<Longrightarrow> e = IntegrityError \<and> n \<in> set (SELECT_name db)"
  by (auto simp: INSERT_player_def Let_def split: if_splits)

lemma execute_write_durable: "durable (snd (execute_write stmt con)) = durable con"
  by (simp add: execute_write_def Let_def split: sum.splits)

lemma execute_write_exhausted:
  "budget con = Some 0 \<Longrightarrow> execute_write stmt con = (Some OperationalError, con)"
  by (simp add: execute_write_def)

lemma visible_budget_update [simp]: "visible (con\<lparr>budget := b\<rparr>) = visible con"
  by (simp add: visible_def split: option.splits)

lemma visible_txn_Some [simp]: "visible (con\<lparr>txn := Some d\<rparr>) = d"
  by (simp add: visible_def)

lemma execute_write_Inl:
  assumes "budget con \<noteq> Some 0" and "stmt (visible con) = Inl e"
  shows "\<exists>con'. execute_write stmt con = (Some e, con') \<and> visible con' = visible con \<and>
           durable con' = durable con"
  using assms by (simp add: execute_write_def Let_def)

lemma execute_write_Inr:
  assumes "budget con \<noteq> Some 0" and "stmt (visible con) = Inr db'"
  shows "\<exists>con'. execute_write stmt con = (None, con') \<and> visible con' = db' \<and>
           durable con' = durable con \<and> budget con' = map_option (\<lambda>k. k - 1) (budget con)"
  using assms by (simp add: execute_write_def Let_def)

lemma execute_write_None:
  assumes "execute_write stmt con = (None, con')"
  shows "stmt (visible con) = Inr (visible con') \<and> durable con' = durable con \<and> txn con' \<noteq> None"
  using assms by (auto simp: execute_write_def Let_def split: if_splits sum.splits)

lemma execute_write_Some:
  assumes "execute_write stmt con = (Some e, con')"
  shows "durable con' = durable con \<and>
         ((budget con = Some 0 \<and> e = OperationalError) \<or> stmt (visible con) = Inl e)"
  using assms by (auto simp: execute_write_def Let_def split: if_splits sum.splits)

lemma execute_write_None_budget:
  assumes "execute_write stmt con = (None, con')" and "budget con = None"
  shows "budget con' = None"
  using assms by (auto simp: execute_write_def Let_def split: if_splits sum.splits)

lemma executemany_durable: "durable (snd (executemany stmt xs con)) = durable con"
proof (induction xs arbitrary: con)
  case Nil
  then show ?case by simp
next
  case (Cons x xs)
  obtain r con1 where ew: "execute_write (stmt x) con = (r, con1)" by (cases "execute_write (stmt x) con")
  have d: "durable con1 = durable con" using execute_write_durable [of "stmt x" con] ew by simp
  show ?case
  proof (cases r)
    case None
    then show ?thesis using ew d Cons.IH [of con1] by simp
  next
    case (Some e)
    then show ?thesis using ew d by simp
  qed
qed

lemma executemany_players_None:
  assumes "executemany INSERT_player xs con = (None, con')"
  shows "SELECT_name (visible con') = SELECT_name (visible con) @ xs \<and>
         observations (visible con') = observations (visible con) \<and>
         (\<exists>rows. players (visible con') = players (visible con) @ rows \<and> map snd rows = xs) \<and>
         set xs \<inter> set (SELECT_name (visible con)) = {} \<and> distinct xs"
  using assms
proof (induction xs arbitrary: con)
  case Nil
  then show ?case by simp
next
  case (Cons x xs)
  obtain r con1 where ew: "execute_write (INSERT_player x) con = (r, con1)"
    by (cases "execute_write (INSERT_player x) con")
  have r: "r = None"
  proof (cases r)
    case None
    then show ?thesis .
  next
    case (Some e)
    then have "executemany INSERT_player (x # xs) con = (Some e, con1)" using ew by simp
    then show ?thesis using Cons.prems by simp
  qed
  have rest: "executemany INSERT_player xs con1 = (None, con')"
    using Cons.prems ew r by simp
  from execute_write_None [OF ew [unfolded r]]
  have ins: "INSERT_player x (visible con) = Inr (visible con1)" by (rule conjunct1)
  note i = INSERT_player_Inr [OF ins]
  note h = Cons.IH [OF rest]
  note h1 = h [THEN conjunct1]
  note h2 = h [THEN conjunct2, THEN conjunct1]
  note h3 = h [THEN conjunct2, THEN conjunct2, THEN conjunct1]
  note h4 = h [THEN conjunct2, THEN conjunct2, THEN conjunct2, THEN conjunct1]
  note h5 = h [THEN conjunct2, THEN conjunct2, THEN conjunct2, THEN conjunct2]
  note i1 = i [THEN conjunct1]
  note i2 = i [THEN conjunct2, THEN conjunct1]
  note i3 = i [THEN conjunct2, THEN conjunct2, THEN conjunct1]
  note i4 = i [THEN conjunct2, THEN conjunct2, THEN conjunct2]
  from i4 obtain k where k: "players (visible con1) = players (visible con) @ [(k, x)]" ..
  from h3 obtain rows where rows: "players (visible con') = players (visible con1) @ rows \<and> map snd rows = xs" ..
  have "players (visible con') = players (visible con) @ ((k, x) # rows) \<and> map snd ((k, x) # rows) = x # xs"
    using k rows by simp
  then have c3: "\<exists>rows. players (visible con') = players (visible con) @ rows \<and> map snd rows = x # xs" ..
  have c1: "SELECT_name (visible con') = SELECT_name (visible con) @ x # xs" using h1 i2 by simp
  have c2: "observations (visible con') = observations (visible con)" using h2 i3 by simp
  have x: "x \<notin> set xs" using h4 i2 by auto
  have c4: "set (x # xs) \<inter> set (SELECT_name (visible con)) = {}" using h4 i1 i2 by auto
  have c5: "distinct (x # xs)" using x h5 by simp
  from c1 c2 c3 c4 c5 show ?case by (intro conjI)
qed

lemma executemany_players_conflict:
  assumes "n \<in> set xs" and "n \<in> set (SELECT_name (visible con))"
  shows "\<exists>e con'. executemany INSERT_player xs con = (Some e, con') \<and>
           (budget con = None \<longrightarrow> e = IntegrityError)"
  using assms
proof (induction xs arbitrary: con)
  case Nil
  then show ?case by simp
next
  case (Cons x xs)
  obtain r con1 where ew: "execute_write (INSERT_player x) con = (r, con1)"
    by (cases "execute_write (INSERT_player x) con")
  show ?case
  proof (cases r)
    case (Some e)
    from execute_write_Some [OF ew [unfolded Some]]
    have "(budget con = Some 0 \<and> e = OperationalError) \<or> INSERT_player x (visible con) = Inl e" by simp
    then have "budget con = None \<longrightarrow> e = IntegrityError" using INSERT_player_Inl by auto
    then show ?thesis using ew Some by simp
  next
    case None
    from execute_write_None [OF ew [unfolded None]]
    have ins: "INSERT_player x (visible con) = Inr (visible con1)" by simp
    note i = INSERT_player_Inr [OF ins]
    have "n \<noteq> x" using i Cons.prems(2) by auto
    then have 1: "n \<in> set xs" using Cons.prems(1) by simp
    have 2: "n \<in> set (SELECT_name (visible con1))" using i Cons.prems(2) by simp
    from Cons.IH [OF 1 2] obtain e con' where
      e: "executemany INSERT_player xs con1 = (Some e, con')" "budget con1 = None \<longrightarrow> e = IntegrityError"
      by (elim exE conjE)
    have "budget con = None \<longrightarrow> budget con1 = None"
      using execute_write_None_budget [OF ew [unfolded None]] by simp
    then show ?thesis using ew None e by simp
  qed
qed

lemma executemany_players_succeeds:
  assumes "budget con = None" and "distinct xs" and "set xs \<inter> set (SELECT_name (visible con)) = {}"
  shows "\<exists>con'. executemany INSERT_player xs con = (None, con') \<and> budget con' = None"
  using assms
proof (induction xs arbitrary: con)
  case Nil
  then show ?case by simp
next
  case (Cons x xs)
  have "x \<notin> set (SELECT_name (visible con))" using Cons.prems(3) by simp
  from INSERT_player_new [OF this] obtain db' where
    db': "INSERT_player x (visible con) = Inr db'" by blast
  have b: "budget con \<noteq> Some 0" using Cons.prems(1) by simp
  from execute_write_Inr [where stmt = "INSERT_player x", OF b db'] obtain con1 where
    con1: "execute_write (INSERT_player x) con = (None, con1)" "visible con1 = db'"
      "budget con1 = map_option (\<lambda>k. k - 1) (budget con)" by blast
  have 1: "budget con1 = None" using con1(3) Cons.prems(1) by simp
  have 2: "distinct xs" using Cons.prems(2) by simp
  have "SELECT_name db' = SELECT_name (visible con) @ [x]" using INSERT_player_Inr [OF db'] by simp
  then have 3: "set xs \<inter> set (SELECT_name (visible con1)) = {}"
    using Cons.prems(2,3) con1(2) by auto
  from Cons.IH [OF 1 2 3] show ?case using con1(1) by simp
qed

lemma filter_unique_name:
  "distinct (map snd rows) \<Longrightarrow> (i, n) \<in> set rows \<Longrightarrow> filter (\<lambda>row. snd row = n) rows = [(i, n)]"
proof (induction rows)
  case Nil
  then show ?case by simp
next
  case (Cons r rows)
  show ?case
  proof (cases "r = (i, n)")
    case True
    then have "n \<notin> snd ` set rows" using Cons.prems(1) by simp
    then have "filter (\<lambda>row. snd row = n) rows = []" by (auto simp: filter_empty_conv)
    then show ?thesis using True by simp
  next
    case False
    then have in_rows: "(i, n) \<in> set rows" using Cons.prems(2) by simp
    then have "n \<in> snd ` set rows" by force
    then have "snd r \<noteq> n" using Cons.prems(1) by auto
    then show ?thesis using Cons.IH in_rows Cons.prems(1) by simp
  qed
qed

lemma INSERT_observation_absent:
  "name p \<notin> set (SELECT_name db) \<Longrightarrow> INSERT_observation t p db = Inr db"
proof -
  assume "name p \<notin> set (SELECT_name db)"
  then have "filter (\<lambda>row. snd row = name p) (players db) = []"
    by (force simp: SELECT_name_def filter_empty_conv)
  then show ?thesis by (simp add: INSERT_observation_def)
qed

lemma INSERT_observation_present:
  assumes "distinct (SELECT_name db)" and "name p \<in> set (SELECT_name db)"
  shows "\<exists>ob db'. INSERT_observation t p db = Inr db' \<and> players db' = players db \<and>
           observations db' = observations db @ [ob] \<and> records_player db ob p \<and> obs_time ob = t"
proof -
  from assms(2) obtain i where i: "(i, name p) \<in> set (players db)"
    by (auto simp: SELECT_name_def)
  have "filter (\<lambda>row. snd row = name p) (players db) = [(i, name p)]"
    using assms(1) i by (intro filter_unique_name) (simp_all add: SELECT_name_def)
  then show ?thesis using i
    by (simp add: INSERT_observation_def add_observation_def Let_def records_player_def)
qed

lemma records_player_cong: "players db = players db' \<Longrightarrow> records_player db = records_player db'"
  by (simp add: records_player_def fun_eq_iff)

lemma executemany_observations_None:
  assumes "executemany (\<lambda>(k, p). INSERT_observation (c k) p) (enumerate j ps) con = (None, con')"
    and "distinct (SELECT_name (visible con))"
    and "name ` set ps \<subseteq> set (SELECT_name (visible con))"
  shows "players (visible con') = players (visible con) \<and>
         (\<exists>obs. observations (visible con') = observations (visible con) @ obs \<and>
                list_all2 (records_player (visible con)) obs ps)"
  using assms
proof (induction ps arbitrary: j con)
  case Nil
  then show ?case by simp
next
  case (Cons p ps)
  let ?stmt = "\<lambda>(k, p). INSERT_observation (c k) p"
  obtain r con1 where ew: "execute_write (INSERT_observation (c j) p) con = (r, con1)"
    by (cases "execute_write (INSERT_observation (c j) p) con")
  with Cons.prems(1) have r: "r = None" by (cases r) simp_all
  with ew Cons.prems(1) have rest: "executemany ?stmt (enumerate (Suc j) ps) con1 = (None, con')" by simp
  from execute_write_None [OF ew [unfolded r]]
  have ins: "INSERT_observation (c j) p (visible con) = Inr (visible con1)" by simp
  have "name p \<in> set (SELECT_name (visible con))" using Cons.prems(3) by simp
  from INSERT_observation_present [OF Cons.prems(2) this, of "c j"] ins
  obtain ob where ob: "players (visible con1) = players (visible con)"
    "observations (visible con1) = observations (visible con) @ [ob]" "records_player (visible con) ob p"
    by auto
  have n1: "SELECT_name (visible con1) = SELECT_name (visible con)" using ob(1) by (simp add: SELECT_name_def)
  have 2: "distinct (SELECT_name (visible con1))" using Cons.prems(2) n1 by simp
  have 3: "name ` set ps \<subseteq> set (SELECT_name (visible con1))" using Cons.prems(3) n1 by simp
  from Cons.IH [OF rest 2 3] obtain obs where
    obs: "players (visible con') = players (visible con1)"
      "observations (visible con') = observations (visible con1) @ obs"
      "list_all2 (records_player (visible con1)) obs ps" by blast
  have "records_player (visible con1) = records_player (visible con)"
    using ob(1) by (rule records_player_cong)
  then have "list_all2 (records_player (visible con)) (ob # obs) (p # ps)" using obs(3) ob(3) by simp
  moreover have "observations (visible con') = observations (visible con) @ (ob # obs)"
    using obs(2) ob(2) by simp
  ultimately have "\<exists>obs. observations (visible con') = observations (visible con) @ obs \<and>
                list_all2 (records_player (visible con)) obs (p # ps)" by blast
  moreover have "players (visible con') = players (visible con)" using obs(1) ob(1) by simp
  ultimately show ?case by blast
qed

lemma executemany_observations_succeeds:
  assumes "budget con = None"
  shows "\<exists>con'. executemany (\<lambda>(k, p). INSERT_observation (c k) p) xs con = (None, con') \<and> budget con' = None"
  using assms
proof (induction xs arbitrary: con)
  case Nil
  then show ?case by simp
next
  case (Cons x xs)
  obtain k p where x: "x = (k, p)" by (cases x)
  have "\<exists>db'. INSERT_observation (c k) p (visible con) = Inr db'" by (simp add: INSERT_observation_def)
  then obtain db' where db': "INSERT_observation (c k) p (visible con) = Inr db'" by blast
  have b: "budget con \<noteq> Some 0" using Cons.prems by simp
  from execute_write_Inr [where stmt = "INSERT_observation (c k) p", OF b db'] obtain con1 where
    con1: "execute_write (INSERT_observation (c k) p) con = (None, con1)"
      "budget con1 = map_option (\<lambda>k. k - 1) (budget con)" by blast
  have "budget con1 = None" using con1(2) Cons.prems by simp
  from Cons.IH [OF this] show ?case using con1(1) x by simp
qed

lemma commit_None:
  assumes "commit con = (None, con')"
  shows "durable con' = visible con \<and> txn con' = None"
  using assms by (auto simp: commit_def visible_def split: option.splits if_splits)

lemma commit_Some:
  assumes "commit con = (Some e, con')"
  shows "con' = con \<and> e = OperationalError"
  using assms by (auto simp: commit_def split: option.splits if_splits)

lemma commit_succeeds: "budget con = None \<Longrightarrow> fst (commit con) = None"
  by (simp add: commit_def split: option.splits)

lemma commit_idle: "txn con = None \<Longrightarrow> commit con = (None, con)"
  by (simp add: commit_def)

lemma write_block_Some:
  assumes "write_block env newPlayers ps con = (Some e, con')"
  shows "durable con' = durable con"
proof -
  obtain r1 con1 where p1: "executemany INSERT_player newPlayers con = (r1, con1)"
    by (cases "executemany INSERT_player newPlayers con")
  have d1: "durable con1 = durable con" using executemany_durable [of INSERT_player newPlayers con] p1 by simp
  show ?thesis
  proof (cases r1)
    case (Some e1)
    then show ?thesis using assms p1 d1 by (simp add: write_block_def)
  next
    case None
    obtain r2 con2 where p2: "executemany (\<lambda>(k, p). INSERT_observation (clock env k) p) (enumerate 0 ps) con1 = (r2, con2)"
      by (cases "executemany (\<lambda>(k, p). INSERT_observation (clock env k) p) (enumerate 0 ps) con1")
    have d2: "durable con2 = durable con1"
      using executemany_durable [of "\<lambda>(k, p). INSERT_observation (clock env k) p" "enumerate 0 ps" con1] p2 by simp
    show ?thesis
    proof (cases r2)
      case (Some e2)
      then show ?thesis using assms p1 p2 None d1 d2 by (simp add: write_block_def)
    next
      case None
      then have "commit con2 = (Some e, con')" using assms p1 p2 \<open>r1 = None\<close> by (simp add: write_block_def)
      from commit_Some [OF this] show ?thesis using d1 d2 by simp
    qed
  qed
qed

lemma write_block_None:
  assumes "write_block env newPlayers ps con = (None, con')"
  shows "\<exists>con1 con2. executemany INSERT_player newPlayers con = (None, con1) \<and>
           executemany (\<lambda>(k, p). INSERT_observation (clock env k) p) (enumerate 0 ps) con1 = (None, con2) \<and>
           durable con' = visible con2 \<and> txn con' = None"
proof -
  obtain r1 con1 where p1: "executemany INSERT_player newPlayers con = (r1, con1)"
    by (cases "executemany INSERT_player newPlayers con")
  obtain r2 con2 where p2: "executemany (\<lambda>(k, p). INSERT_observation (clock env k) p) (enumerate 0 ps) con1 = (r2, con2)"
    by (cases "executemany (\<lambda>(k, p). INSERT_observation (clock env k) p) (enumerate 0 ps) con1")
  have r1: "r1 = None" using assms p1 by (cases r1) (simp_all add: write_block_def)
  have r2: "r2 = None" using assms p1 p2 r1 by (cases r2) (simp_all add: write_block_def)
  have "commit con2 = (None, con')" using assms p1 p2 r1 r2 by (simp add: write_block_def)
  from commit_None [OF this] show ?thesis using p1 p2 r1 r2 by simp
qed

lemma with_con_write_block_Some:
  assumes "with_con (write_block env newPlayers ps) con = (Some e, con')"
  shows "durable con' = durable con"
proof -
  obtain r c1 where b: "write_block env newPlayers ps con = (r, c1)"
    by (cases "write_block env newPlayers ps con")
  show ?thesis
  proof (cases r)
    case (Some e1)
    then have "con' = rollback c1" using assms b by (simp add: with_con_def)
    then show ?thesis using write_block_Some [OF b [unfolded Some]] by (simp add: rollback_def)
  next
    case None
    from write_block_None [OF b [unfolded None]] have "txn c1 = None" by blast
    then have "commit c1 = (None, c1)" by (rule commit_idle)
    then show ?thesis using assms b None by (simp add: with_con_def)
  qed
qed

lemma with_con_write_block_None:
  assumes "with_con (write_block env newPlayers ps) con = (None, con')"
  shows "write_block env newPlayers ps con = (None, con')"
proof -
  obtain r c1 where b: "write_block env newPlayers ps con = (r, c1)"
    by (cases "write_block env newPlayers ps con")
  show ?thesis
  proof (cases r)
    case (Some e1)
    then show ?thesis using assms b by (simp add: with_con_def)
  next
    case None
    from write_block_None [OF b [unfolded None]] have "txn c1 = None" by blast
    then have "commit c1 = (None, c1)" by (rule commit_idle)
    then show ?thesis using assms b None by (simp add: with_con_def)
  qed
qed

lemma rival_step_names:
  "set (SELECT_name (case INSERT_player n d of Inl e \<Rightarrow> d | Inr d' \<Rightarrow> d')) = insert n (set (SELECT_name d))"
proof (cases "INSERT_player n d")
  case (Inl e)
  then show ?thesis using INSERT_player_Inl [OF Inl] by auto
next
  case (Inr d')
  then show ?thesis using INSERT_player_Inr [OF Inr] by simp
qed

lemma rival_step_distinct:
  "distinct (SELECT_name d) \<Longrightarrow> distinct (SELECT_name (case INSERT_player n d of Inl e \<Rightarrow> d | Inr d' \<Rightarrow> d'))"
proof (cases "INSERT_player n d")
  case (Inl e)
  assume "distinct (SELECT_name d)"
  then show ?thesis using Inl by simp
next
  case (Inr d')
  assume "distinct (SELECT_name d)"
  then show ?thesis using Inr INSERT_player_Inr [OF Inr] by simp
qed

lemma rival_step_observations:
  "observations (case INSERT_player n d of Inl e \<Rightarrow> d | Inr d' \<Rightarrow> d') = observations d"
proof (cases "INSERT_player n d")
  case (Inl e)
  then show ?thesis by simp
next
  case (Inr d')
  then show ?thesis using INSERT_player_Inr [OF Inr] by simp
qed

lemma rival_fold:
  "set (SELECT_name (fold (\<lambda>n d. case INSERT_player n d of Inl e \<Rightarrow> d | Inr d' \<Rightarrow> d') ns d)) =
     set (SELECT_name d) \<union> set ns \<and>
   observations (fold (\<lambda>n d. case INSERT_player n d of Inl e \<Rightarrow> d | Inr d' \<Rightarrow> d') ns d) = observations d \<and>
   (distinct (SELECT_name d) \<longrightarrow>
      distinct (SELECT_name (fold (\<lambda>n d. case INSERT_player n d of Inl e \<Rightarrow> d | Inr d' \<Rightarrow> d') ns d)))"
proof (induction ns arbitrary: d)
  case Nil
  then show ?case by simp
next
  case (Cons n ns)
  let ?d1 = "case INSERT_player n d of Inl e \<Rightarrow> d | Inr d' \<Rightarrow> d'"
  note h = Cons.IH [of ?d1]
  have 1: "set (SELECT_name ?d1) = insert n (set (SELECT_name d))" by (rule rival_step_names)
  have 2: "observations ?d1 = observations d" by (rule rival_step_observations)
  have 3: "distinct (SELECT_name d) \<longrightarrow> distinct (SELECT_name ?d1)" using rival_step_distinct by blast
  show ?case using h 1 2 3 by auto
qed

lemma raced_facts:
  "set (SELECT_name (raced env db)) = set (SELECT_name db) \<union> set (racing env) \<and>
   observations (raced env db) = observations db \<and>
   (distinct (SELECT_name db) \<longrightarrow> distinct (SELECT_name (raced env db)))"
  using rival_fold [of "racing env" db] by (simp add: raced_def other_writer_def connect_def)

lemma raced_none: "racing env = [] \<Longrightarrow> raced env db = db"
  by (simp add: raced_def other_writer_def connect_def)

lemma other_writer_connect:
  "visible (other_writer (racing env) (connect db (io_budget env))) = raced env db \<and>
   durable (other_writer (racing env) (connect db (io_budget env))) = raced env db \<and>
   budget (other_writer (racing env) (connect db (io_budget env))) = io_budget env"
  by (simp add: raced_def other_writer_def connect_def visible_def)

lemma newPlayers_set:
  "set (filter (\<lambda>n. n \<notin> set (SELECT_name db)) (remdups (map name ps))) = fresh db ps \<and>
   distinct (filter (\<lambda>n. n \<notin> set (SELECT_name db)) (remdups (map name ps)))"
  by (auto simp: fresh_def)

lemma runCycle_unfold:
  "runCycle env db ps =
     (case with_con (write_block env (filter (\<lambda>n. n \<notin> set (SELECT_name db)) (remdups (map name ps))) ps)
             (other_writer (racing env) (connect db (io_budget env))) of
        (e, con') \<Rightarrow> (e, durable con'))"
  by (simp add: runCycle_def Let_def connect_def)

lemma runCycle_Some:
  assumes "runCycle env db ps = (Some e, db')"
  shows "db' = raced env db"
proof -
  let ?np = "filter (\<lambda>n. n \<notin> set (SELECT_name db)) (remdups (map name ps))"
  let ?con = "other_writer (racing env) (connect db (io_budget env))"
  obtain r c where w: "with_con (write_block env ?np ps) ?con = (r, c)"
    by (cases "with_con (write_block env ?np ps) ?con")
  with assms have "r = Some e" and "db' = durable c" by (simp_all add: runCycle_unfold)
  with w with_con_write_block_Some [of env ?np ps ?con e c] show ?thesis
    using other_writer_connect [of env db] by simp
qed

lemma runCycle_None:
  assumes "runCycle env db ps = (None, db')"
  shows "\<exists>con1 con2.
           executemany INSERT_player (filter (\<lambda>n. n \<notin> set (SELECT_name db)) (remdups (map name ps)))
             (other_writer (racing env) (connect db (io_budget env))) = (None, con1) \<and>
           executemany (\<lambda>(k, p). INSERT_observation (clock env k) p) (enumerate 0 ps) con1 = (None, con2) \<and>
           db' = visible con2"
proof -
  let ?np = "filter (\<lambda>n. n \<notin> set (SELECT_name db)) (remdups (map name ps))"
  let ?con = "other_writer (racing env) (connect db (io_budget env))"
  obtain r c where w: "with_con (write_block env ?np ps) ?con = (r, c)"
    by (cases "with_con (write_block env ?np ps) ?con")
  with assms have r: "r = None" and d: "db' = durable c" by (simp_all add: runCycle_unfold)
  from with_con_write_block_None [OF w [unfolded r]]
  have "write_block env ?np ps ?con = (None, c)" .
  from write_block_None [OF this] show ?thesis using d by auto
qed

lemma runCycle_committed:
  assumes dis: "distinct (SELECT_name db)" and run: "runCycle env db ps = (None, db')"
  shows "\<exists>rows obs. players db' = players (raced env db) @ rows \<and>
           distinct (map snd rows) \<and> set (map snd rows) = fresh db ps \<and>
           observations db' = observations db @ obs \<and> list_all2 (records_player db') obs ps \<and>
           distinct (SELECT_name db') \<and> name ` set ps \<subseteq> set (SELECT_name db')"
proof -
  let ?np = "filter (\<lambda>n. n \<notin> set (SELECT_name db)) (remdups (map name ps))"
  let ?con = "other_writer (racing env) (connect db (io_budget env))"
  from runCycle_None [OF run] obtain con1 con2 where
    p1: "executemany INSERT_player ?np ?con = (None, con1)" and
    p2: "executemany (\<lambda>(k, p). INSERT_observation (clock env k) p) (enumerate 0 ps) con1 = (None, con2)" and
    d: "db' = visible con2" by blast
  have v0: "visible ?con = raced env db" using other_writer_connect [of env db] by (rule conjunct1)
  note rf = raced_facts [of env db]
  note rf1 = rf [THEN conjunct1]
  note rf2 = rf [THEN conjunct2, THEN conjunct1]
  have rf3: "distinct (SELECT_name (raced env db))" using rf [THEN conjunct2, THEN conjunct2] dis by simp
  note e = executemany_players_None [OF p1, unfolded v0]
  note e1 = e [THEN conjunct1]
  note e2 = e [THEN conjunct2, THEN conjunct1]
  note e3 = e [THEN conjunct2, THEN conjunct2, THEN conjunct1]
  note e4 = e [THEN conjunct2, THEN conjunct2, THEN conjunct2, THEN conjunct1]
  note e5 = e [THEN conjunct2, THEN conjunct2, THEN conjunct2, THEN conjunct2]
  from e3 obtain rows where rows: "players (visible con1) = players (raced env db) @ rows \<and> map snd rows = ?np" ..
  have np: "set ?np = fresh db ps" using newPlayers_set [of db ps] by (rule conjunct1)
  have dis1: "distinct (SELECT_name (visible con1))"
    using e1 rf3 e5 e4 by (simp add: Int_commute)
  have sub1: "name ` set ps \<subseteq> set (SELECT_name (visible con1))"
  proof
    fix n assume n: "n \<in> name ` set ps"
    show "n \<in> set (SELECT_name (visible con1))"
    proof (cases "n \<in> set (SELECT_name db)")
      case True
      then have "n \<in> set (SELECT_name (raced env db))" using rf1 by simp
      then show ?thesis using e1 by simp
    next
      case False
      with n have "n \<in> fresh db ps" by (simp add: fresh_def)
      then have "n \<in> set ?np" using np by simp
      then show ?thesis using e1 by simp
    qed
  qed
  note o = executemany_observations_None [OF p2 dis1 sub1]
  note o1 = o [THEN conjunct1]
  from o [THEN conjunct2] obtain obs where
    obs: "observations (visible con2) = observations (visible con1) @ obs \<and>
          list_all2 (records_player (visible con1)) obs ps" ..
  have rp: "records_player (visible con2) = records_player (visible con1)"
    using o1 by (rule records_player_cong)
  have n2: "SELECT_name (visible con2) = SELECT_name (visible con1)" using o1 by (simp add: SELECT_name_def)
  have c1: "players db' = players (raced env db) @ rows" using d o1 rows by simp
  have c2: "distinct (map snd rows)" using rows e5 by simp
  have c3: "set (map snd rows) = fresh db ps" using rows np by simp
  have c4: "observations db' = observations db @ obs" using d obs e2 rf2 by simp
  have c5: "list_all2 (records_player db') obs ps" using d obs rp by simp
  have c6: "distinct (SELECT_name db')" using d n2 dis1 by simp
  have c7: "name ` set ps \<subseteq> set (SELECT_name db')" using d n2 sub1 by simp
  from c1 c2 c3 c4 c5 c6 c7 show ?thesis by blast
qed

lemma runCycle_commits:
  assumes "io_budget env = None" and "set (racing env) \<inter> fresh db ps = {}"
  shows "fst (runCycle env db ps) = None"
proof -
  let ?np = "filter (\<lambda>n. n \<notin> set (SELECT_name db)) (remdups (map name ps))"
  let ?con = "other_writer (racing env) (connect db (io_budget env))"
  note ow = other_writer_connect [of env db]
  have v0: "visible ?con = raced env db" using ow by (rule conjunct1)
  have b0: "budget ?con = None" using ow [THEN conjunct2, THEN conjunct2] assms(1) by simp
  note np = newPlayers_set [of db ps]
  have np1: "set ?np = fresh db ps" using np by (rule conjunct1)
  have np2: "distinct ?np" using np by (rule conjunct2)
  have "set (SELECT_name (raced env db)) = set (SELECT_name db) \<union> set (racing env)"
    using raced_facts [of env db] by (rule conjunct1)
  moreover have "fresh db ps \<inter> set (SELECT_name db) = {}" by (auto simp: fresh_def)
  ultimately have "fresh db ps \<inter> set (SELECT_name (raced env db)) = {}" using assms(2) by auto
  then have dj: "set ?np \<inter> set (SELECT_name (visible ?con)) = {}" using np1 v0 by simp
  from executemany_players_succeeds [OF b0 np2 dj] obtain con1 where
    p1: "executemany INSERT_player ?np ?con = (None, con1)" and b1: "budget con1 = None" by blast
  from executemany_observations_succeeds [OF b1, of "clock env" "enumerate 0 ps"] obtain con2 where
    p2: "executemany (\<lambda>(k, p). INSERT_observation (clock env k) p) (enumerate 0 ps) con1 = (None, con2)"
    and b2: "budget con2 = None" by blast
  obtain r c where cm: "commit con2 = (r, c)" by (cases "commit con2")
  have r: "r = None" using commit_succeeds [OF b2] cm by simp
  have wb: "write_block env ?np ps ?con = (None, c)" using p1 p2 cm r by (simp add: write_block_def)
  have "txn c = None" using commit_None [OF cm [unfolded r]] by (rule conjunct2)
  then have "commit c = (None, c)" by (rule commit_idle)
  then have "with_con (write_block env ?np ps) ?con = (None, c)" using wb by (simp add: with_con_def)
  then show ?thesis by (simp add: runCycle_unfold)
qed

text \<open>
  The rating as the column stores it: leading zeros go, and a value of \<open>2\<^sup>6\<^sup>3\<close> or more
  is no longer an integer. The ratings that \<^verbatim>\<open>who\<close> delivers are non-empty digit
  strings, so each of them is stored as a number.
\<close>

lemma INT_affinity_examples:
  "INT_affinity ''007'' = SQL_INTEGER 7 \<and>
   INT_affinity ''1923'' = SQL_INTEGER 1923 \<and>
   INT_affinity ''9223372036854775807'' = SQL_INTEGER 9223372036854775807 \<and>
   INT_affinity ''9223372036854775808'' = SQL_REAL 9223372036854775808 \<and>
   snd (runCycle quiet empty_db [\<lparr>oid = 0, rating = ''007'', status = ''INGAME'', name = ''Bond''\<rparr>]) =
     \<lparr>players = [(1, ''Bond'')],
      observations =
        [\<lparr>obs_id = 1, obs_time = 0, playerid = 1, obs_rating = SQL_INTEGER 7, obs_status = ''INGAME''\<rparr>],
      players_seq = 1, observations_seq = 1\<rparr>"
  by code_simp

lemma frozenset_players_ratings:
  "frozenset_players i ts = Inr ps \<Longrightarrow> p \<in> set ps \<Longrightarrow> rating p \<noteq> [] \<and> list_all is_digit (rating p)"
proof (induction ts arbitrary: i ps)
  case Nil
  then show ?case by simp
next
  case (Cons t ts)
  show ?case
  proof (cases "WHO_REGEX_fullmatch t")
    case None
    then have "frozenset_players i ts = Inr ps" using Cons.prems(1) by simp
    then show ?thesis using Cons.prems(2) by (rule Cons.IH)
  next
    case (Some g)
    obtain r s n where g: "g = (r, s, n)" by (cases g)
    have m: "WHO_REGEX_fullmatch t = Some (r, s, n)" using Some g by simp
    then have d: "r \<noteq> [] \<and> list_all is_digit r" by (auto simp: WHO_REGEX_fullmatch_iff)
    from Cons.prems(1) m obtain st ps' where
      st: "STATUSES s = Some st" and tl: "frozenset_players (Suc i) ts = Inr ps'" and
      ps: "ps = \<lparr>oid = i, rating = r, status = st, name = n\<rparr> # ps'"
      by (auto simp: Player_init_def split: option.splits sum.splits)
    show ?thesis
    proof (cases "p \<in> set ps'")
      case True
      with tl show ?thesis by (rule Cons.IH)
    next
      case False
      with Cons.prems(2) ps have "p = \<lparr>oid = i, rating = r, status = st, name = n\<rparr>" by simp
      then show ?thesis using d by simp
    qed
  qed
qed

lemma who_ratings_stored_as_numbers:
  assumes "who tn = (Inr ps, tn')" and "p \<in> set ps"
  shows "INT_affinity (rating p) =
           (if decimal (rating p) < 9223372036854775808 then SQL_INTEGER (decimal (rating p))
            else SQL_REAL (decimal (rating p)))"
proof -
  obtain r tn1 where r: "who_playerStrings tn = (r, tn1)" by (cases "who_playerStrings tn")
  have "\<exists>ts. frozenset_players 0 ts = Inr ps"
  proof (cases r)
    case (Inl e)
    then show ?thesis using assms(1) r by (simp add: who_def)
  next
    case (Inr ts)
    then have "frozenset_players 0 ts = Inr ps" using assms(1) r by (simp add: who_def)
    then show ?thesis ..
  qed
  then obtain ts where "frozenset_players 0 ts = Inr ps" ..
  from frozenset_players_ratings [OF this assms(2)] show ?thesis by (simp add: INT_affinity_def)
qed

text \<open>
  C4. With the names of the table distinct, as its \<^verbatim>\<open>UNIQUE\<close> column keeps them: a pass
  during which the store does not fail and no other connection inserts one of the fresh
  names commits; and a pass that commits has inserted exactly one row of \<^verbatim>\<open>players\<close>
  for every name of \<open>fresh\<close>, the observed names that the table did not hold, and one row
  of \<^verbatim>\<open>observations\<close> for every observed Player, fresh or known, in the order of the
  Players, each pointing to the row of its Player's name and carrying its status and its
  rating as the \<^verbatim>\<open>INT\<close> column stores it.
\<close>

theorem runCycle_inserts:
  assumes "distinct (SELECT_name db)"
  shows "(io_budget env = None \<and> set (racing env) \<inter> fresh db ps = {} \<longrightarrow> fst (runCycle env db ps) = None) \<and>
         (\<forall>db'. runCycle env db ps = (None, db') \<longrightarrow>
            (\<exists>rows obs. players db' = players (raced env db) @ rows \<and>
               distinct (map snd rows) \<and> set (map snd rows) = fresh db ps \<and>
               observations db' = observations db @ obs \<and> list_all2 (records_player db') obs ps))"
proof (intro conjI allI impI)
  assume "io_budget env = None \<and> set (racing env) \<inter> fresh db ps = {}"
  then show "fst (runCycle env db ps) = None" using runCycle_commits by blast
next
  fix db' assume "runCycle env db ps = (None, db')"
  from runCycle_committed [OF assms this]
  show "\<exists>rows obs. players db' = players (raced env db) @ rows \<and>
               distinct (map snd rows) \<and> set (map snd rows) = fresh db ps \<and>
               observations db' = observations db @ obs \<and> list_all2 (records_player db') obs ps"
    by blast
qed

text \<open>
  The example of the specification: the table holds A and B, the poll returns B and C. One row
  is inserted into \<^verbatim>\<open>players\<close>, for C, and two into \<^verbatim>\<open>observations\<close>, for B and C.
  The ratings \<^verbatim>\<open>007\<close> and \<^verbatim>\<open>9223372036854775808\<close> are stored as the integer 7 and as
  a floating-point number.
\<close>

theorem runCycle_inserts_witness:
  "fst (runCycle quiet
     \<lparr>players = [(1, ''A''), (2, ''B'')], observations = [], players_seq = 2, observations_seq = 0\<rparr>
     [\<lparr>oid = 0, rating = ''007'', status = ''NOT_OPEN'', name = ''B''\<rparr>,
      \<lparr>oid = 1, rating = ''9223372036854775808'', status = ''INGAME'', name = ''C''\<rparr>]) = None \<and>
   runCycle quiet
     \<lparr>players = [(1, ''A''), (2, ''B'')], observations = [], players_seq = 2, observations_seq = 0\<rparr>
     [\<lparr>oid = 0, rating = ''007'', status = ''NOT_OPEN'', name = ''B''\<rparr>,
      \<lparr>oid = 1, rating = ''9223372036854775808'', status = ''INGAME'', name = ''C''\<rparr>] =
     (None,
      \<lparr>players = [(1, ''A''), (2, ''B''), (3, ''C'')],
        observations =
          [\<lparr>obs_id = 1, obs_time = 0, playerid = 2, obs_rating = SQL_INTEGER 7,
             obs_status = ''NOT_OPEN''\<rparr>,
           \<lparr>obs_id = 2, obs_time = 0, playerid = 3, obs_rating = SQL_REAL 9223372036854775808,
             obs_status = ''INGAME''\<rparr>],
        players_seq = 3, observations_seq = 2\<rparr>) \<and>
   (\<exists>rows obs.
      [(1, ''A''), (2, ''B''), (3, ''C'')] = [(1::nat, ''A''), (2, ''B'')] @ rows \<and>
      distinct (map snd rows) \<and> set (map snd rows) = {''C''} \<and>
      map obs_rating (obs :: observation list) = [SQL_INTEGER 7, SQL_REAL 9223372036854775808] \<and>
      map obs_status obs = [''NOT_OPEN'', ''INGAME''])"
proof -
  let ?db = "\<lparr>players = [(1, ''A''), (2, ''B'')], observations = [], players_seq = 2, observations_seq = 0\<rparr>"
  let ?ps = "[\<lparr>oid = 0, rating = ''007'', status = ''NOT_OPEN'', name = ''B''\<rparr>,
      \<lparr>oid = 1, rating = ''9223372036854775808'', status = ''INGAME'', name = ''C''\<rparr>]"
  let ?db' = "\<lparr>players = [(1, ''A''), (2, ''B''), (3, ''C'')],
        observations =
          [\<lparr>obs_id = 1, obs_time = 0, playerid = 2, obs_rating = SQL_INTEGER 7,
             obs_status = ''NOT_OPEN''\<rparr>,
           \<lparr>obs_id = 2, obs_time = 0, playerid = 3, obs_rating = SQL_REAL 9223372036854775808,
             obs_status = ''INGAME''\<rparr>],
        players_seq = 3, observations_seq = 2\<rparr>"
  have d: "distinct (SELECT_name ?db)" by (simp add: SELECT_name_def)
  have q: "io_budget quiet = None \<and> set (racing quiet) \<inter> fresh ?db ?ps = {}" by (simp add: quiet_def)
  have run: "runCycle quiet ?db ?ps = (None, ?db')" by code_simp
  have r: "raced quiet ?db = ?db" by (rule raced_none) (simp add: quiet_def)
  have f: "fresh ?db ?ps = {''C''}" by (auto simp: fresh_def SELECT_name_def)
  note t = runCycle_inserts [OF d, of quiet ?ps]
  have 1: "fst (runCycle quiet ?db ?ps) = None" using t [THEN conjunct1] q by (rule mp)
  from t [THEN conjunct2, THEN spec, THEN mp, OF run] obtain rows obs where
    ro: "players ?db' = players (raced quiet ?db) @ rows \<and>
         distinct (map snd rows) \<and> set (map snd rows) = fresh ?db ?ps \<and>
         observations ?db' = observations ?db @ obs \<and> list_all2 (records_player ?db') obs ?ps"
    by (elim exE)
  have "observations ?db' = observations ?db @ obs"
    using ro by (rule conjunct2 [THEN conjunct2, THEN conjunct2, THEN conjunct1])
  then have obs: "obs = observations ?db'" by simp
  have p1: "players ?db' = players ?db @ rows" using ro [THEN conjunct1] r by simp
  have p2: "distinct (map snd rows)" using ro by (rule conjunct2 [THEN conjunct1])
  have p3: "set (map snd rows) = {''C''}"
    using ro [THEN conjunct2, THEN conjunct2, THEN conjunct1] f by simp
  have p4: "[(1, ''A''), (2, ''B''), (3, ''C'')] = [(1::nat, ''A''), (2, ''B'')] @ rows"
    using p1 by simp
  have r1: "map obs_rating obs = [SQL_INTEGER 7, SQL_REAL 9223372036854775808]" by (simp add: obs)
  have r2: "map obs_status obs = [''NOT_OPEN'', ''INGAME'']" by (simp add: obs)
  have "[(1, ''A''), (2, ''B''), (3, ''C'')] = [(1::nat, ''A''), (2, ''B'')] @ rows \<and>
      distinct (map snd rows) \<and> set (map snd rows) = {''C''} \<and>
      map obs_rating (obs :: observation list) = [SQL_INTEGER 7, SQL_REAL 9223372036854775808] \<and>
      map obs_status obs = [''NOT_OPEN'', ''INGAME'']"
    using p4 p2 p3 r1 r2 by (intro conjI)
  then have "\<exists>obs.
      [(1, ''A''), (2, ''B''), (3, ''C'')] = [(1::nat, ''A''), (2, ''B'')] @ rows \<and>
      distinct (map snd rows) \<and> set (map snd rows) = {''C''} \<and>
      map obs_rating (obs :: observation list) = [SQL_INTEGER 7, SQL_REAL 9223372036854775808] \<and>
      map obs_status obs = [''NOT_OPEN'', ''INGAME'']"
    by (rule exI [where x = obs])
  then have 3: "\<exists>rows obs.
      [(1, ''A''), (2, ''B''), (3, ''C'')] = [(1::nat, ''A''), (2, ''B'')] @ rows \<and>
      distinct (map snd rows) \<and> set (map snd rows) = {''C''} \<and>
      map obs_rating (obs :: observation list) = [SQL_INTEGER 7, SQL_REAL 9223372036854775808] \<and>
      map obs_status obs = [''NOT_OPEN'', ''INGAME'']"
    by (rule exI [where x = rows])
  from 1 run 3 show ?thesis by (intro conjI)
qed

text \<open>
  C5, as the code has it. Two passes in a row over the same Players, on a table with
  distinct names. When the store does not fail and no other connection inserts a fresh
  name during the first pass, both passes commit. When both commit, the second inserts no
  row into \<^verbatim>\<open>players\<close> (the table holds what the other connection left there and
  nothing more), and each of the two inserts one row of \<^verbatim>\<open>observations\<close> for every
  observed Player.
\<close>

theorem runCycle_twice:
  assumes "distinct (SELECT_name db)"
  shows "(io_budget env1 = None \<and> set (racing env1) \<inter> fresh db ps = {} \<and> io_budget env2 = None \<longrightarrow>
            fst (runCycle env1 db ps) = None \<and>
            fst (runCycle env2 (snd (runCycle env1 db ps)) ps) = None) \<and>
         (\<forall>db1 db2. runCycle env1 db ps = (None, db1) \<and> runCycle env2 db1 ps = (None, db2) \<longrightarrow>
            players db2 = players (raced env2 db1) \<and>
            (\<exists>obs1 obs2. observations db1 = observations db @ obs1 \<and>
               observations db2 = observations db1 @ obs2 \<and>
               list_all2 (records_player db1) obs1 ps \<and> list_all2 (records_player db2) obs2 ps))"
proof (intro conjI allI impI)
  assume q: "io_budget env1 = None \<and> set (racing env1) \<inter> fresh db ps = {} \<and> io_budget env2 = None"
  then have 1: "fst (runCycle env1 db ps) = None" using runCycle_commits by blast
  then have run1: "runCycle env1 db ps = (None, snd (runCycle env1 db ps))" by (simp add: prod_eq_iff)
  from runCycle_committed [OF assms run1]
  have "name ` set ps \<subseteq> set (SELECT_name (snd (runCycle env1 db ps)))" by blast
  then have "fresh (snd (runCycle env1 db ps)) ps = {}" by (auto simp: fresh_def)
  then have "set (racing env2) \<inter> fresh (snd (runCycle env1 db ps)) ps = {}" by simp
  with q have 2: "fst (runCycle env2 (snd (runCycle env1 db ps)) ps) = None"
    using runCycle_commits by blast
  from 1 show "fst (runCycle env1 db ps) = None" .
  from 2 show "fst (runCycle env2 (snd (runCycle env1 db ps)) ps) = None" .
next
  fix db1 db2
  assume r: "runCycle env1 db ps = (None, db1) \<and> runCycle env2 db1 ps = (None, db2)"
  then have r1: "runCycle env1 db ps = (None, db1)" and r2: "runCycle env2 db1 ps = (None, db2)"
    by simp_all
  from runCycle_committed [OF assms r1] obtain rows1 obs1 where
    1: "observations db1 = observations db @ obs1" "list_all2 (records_player db1) obs1 ps"
       "distinct (SELECT_name db1)" "name ` set ps \<subseteq> set (SELECT_name db1)" by blast
  from runCycle_committed [OF 1(3) r2] obtain rows2 obs2 where
    2: "players db2 = players (raced env2 db1) @ rows2" "set (map snd rows2) = fresh db1 ps"
       "observations db2 = observations db1 @ obs2" "list_all2 (records_player db2) obs2 ps" by blast
  have "fresh db1 ps = {}" using 1(4) by (auto simp: fresh_def)
  then have "rows2 = []" using 2(2) by simp
  then show "players db2 = players (raced env2 db1)" using 2(1) by simp
  show "\<exists>obs1 obs2. observations db1 = observations db @ obs1 \<and>
               observations db2 = observations db1 @ obs2 \<and>
               list_all2 (records_player db1) obs1 ps \<and> list_all2 (records_player db2) obs2 ps"
    using 1(1,2) 2(3,4) by blast
qed

theorem runCycle_twice_witness:
  "fst (runCycle quiet empty_db
       [\<lparr>oid = 0, rating = ''1500'', status = ''NOT_OPEN'', name = ''Alice''\<rparr>,
        \<lparr>oid = 1, rating = ''2100'', status = ''INGAME'', name = ''Bob''\<rparr>]) = None \<and>
   fst (runCycle quiet (snd (runCycle quiet empty_db
       [\<lparr>oid = 0, rating = ''1500'', status = ''NOT_OPEN'', name = ''Alice''\<rparr>,
        \<lparr>oid = 1, rating = ''2100'', status = ''INGAME'', name = ''Bob''\<rparr>]))
       [\<lparr>oid = 0, rating = ''1500'', status = ''NOT_OPEN'', name = ''Alice''\<rparr>,
        \<lparr>oid = 1, rating = ''2100'', status = ''INGAME'', name = ''Bob''\<rparr>]) = None \<and>
   players (snd (runCycle quiet (snd (runCycle quiet empty_db
       [\<lparr>oid = 0, rating = ''1500'', status = ''NOT_OPEN'', name = ''Alice''\<rparr>,
        \<lparr>oid = 1, rating = ''2100'', status = ''INGAME'', name = ''Bob''\<rparr>]))
       [\<lparr>oid = 0, rating = ''1500'', status = ''NOT_OPEN'', name = ''Alice''\<rparr>,
        \<lparr>oid = 1, rating = ''2100'', status = ''INGAME'', name = ''Bob''\<rparr>])) =
     [(1, ''Alice''), (2, ''Bob'')] \<and>
   (\<exists>obs1 obs2.
      observations (snd (runCycle quiet (snd (runCycle quiet empty_db
       [\<lparr>oid = 0, rating = ''1500'', status = ''NOT_OPEN'', name = ''Alice''\<rparr>,
        \<lparr>oid = 1, rating = ''2100'', status = ''INGAME'', name = ''Bob''\<rparr>]))
       [\<lparr>oid = 0, rating = ''1500'', status = ''NOT_OPEN'', name = ''Alice''\<rparr>,
        \<lparr>oid = 1, rating = ''2100'', status = ''INGAME'', name = ''Bob''\<rparr>])) = obs1 @ obs2 \<and>
      length obs1 = 2 \<and> length obs2 = 2)"
proof -
  let ?ps = "[\<lparr>oid = 0, rating = ''1500'', status = ''NOT_OPEN'', name = ''Alice''\<rparr>,
        \<lparr>oid = 1, rating = ''2100'', status = ''INGAME'', name = ''Bob''\<rparr>]"
  let ?db1 = "\<lparr>players = [(1, ''Alice''), (2, ''Bob'')],
        observations =
          [\<lparr>obs_id = 1, obs_time = 0, playerid = 1, obs_rating = SQL_INTEGER 1500, obs_status = ''NOT_OPEN''\<rparr>,
           \<lparr>obs_id = 2, obs_time = 0, playerid = 2, obs_rating = SQL_INTEGER 2100, obs_status = ''INGAME''\<rparr>],
        players_seq = 2, observations_seq = 2\<rparr>"
  let ?db2 = "snd (runCycle quiet ?db1 ?ps)"
  have d: "distinct (SELECT_name empty_db)" by (simp add: SELECT_name_def empty_db_def)
  have q: "io_budget quiet = None \<and> set (racing quiet) \<inter> fresh empty_db ?ps = {} \<and> io_budget quiet = None"
    by (simp add: quiet_def)
  have e1: "snd (runCycle quiet empty_db ?ps) = ?db1" by code_simp
  note t = runCycle_twice [OF d, of quiet ?ps quiet]
  from t q have c: "fst (runCycle quiet empty_db ?ps) = None \<and>
            fst (runCycle quiet (snd (runCycle quiet empty_db ?ps)) ?ps) = None"
    by blast
  have c1: "fst (runCycle quiet empty_db ?ps) = None" using c by blast
  have c2: "fst (runCycle quiet ?db1 ?ps) = None" using c e1 by simp
  have run1: "runCycle quiet empty_db ?ps = (None, ?db1)" using c1 e1 by (simp add: prod_eq_iff)
  have run2: "runCycle quiet ?db1 ?ps = (None, ?db2)" using c2 by (simp add: prod_eq_iff)
  have r: "raced quiet ?db1 = ?db1" by (rule raced_none) (simp add: quiet_def)
  from t run1 run2 have t2: "players ?db2 = players (raced quiet ?db1) \<and>
            (\<exists>obs1 obs2. observations ?db1 = observations empty_db @ obs1 \<and>
               observations ?db2 = observations ?db1 @ obs2 \<and>
               list_all2 (records_player ?db1) obs1 ?ps \<and> list_all2 (records_player ?db2) obs2 ?ps)"
    by blast
  have 1: "players ?db2 = [(1, ''Alice''), (2, ''Bob'')]" using t2 r by simp
  from t2 obtain obs1 obs2 where
    o: "observations ?db1 = observations empty_db @ obs1" "observations ?db2 = observations ?db1 @ obs2"
       "list_all2 (records_player ?db1) obs1 ?ps" "list_all2 (records_player ?db2) obs2 ?ps"
    by blast
  have "observations ?db2 = obs1 @ obs2" using o(1,2) by (simp add: empty_db_def)
  moreover have "length obs1 = 2" using o(3) by (auto dest: list_all2_lengthD)
  moreover have "length obs2 = 2" using o(4) by (auto dest: list_all2_lengthD)
  ultimately have 2: "\<exists>obs1 obs2. observations ?db2 = obs1 @ obs2 \<and> length obs1 = 2 \<and> length obs2 = 2"
    by blast
  show ?thesis using c1 c2 1 2 e1 by simp
qed

text \<open>
  The same reply twice, with two tokens for the name \<^verbatim>\<open>Bob\<close>: after the two passes the
  table \<^verbatim>\<open>players\<close> holds one row, and \<^verbatim>\<open>observations\<close> holds four rows for it, two
  from each pass.
\<close>

theorem loop_same_name_twice:
  "loop [quiet, quiet]
     \<lparr>fics = \<lparr>cooked = ''1500^Bob 1600.Bob players displayed fics% 1500^Bob 1600.Bob players displayed fics%'',
              sock_ok = True, sent = []\<rparr>,
      fics_db = empty_db, cont = None\<rparr> =
   (Running,
    \<lparr>fics = \<lparr>cooked = [], sock_ok = True, sent = [''who'' @ [CHR 0x0A], ''who'' @ [CHR 0x0A]]\<rparr>,
     fics_db =
       \<lparr>players = [(1, ''Bob'')],
        observations =
          [\<lparr>obs_id = 1, obs_time = 0, playerid = 1, obs_rating = SQL_INTEGER 1500, obs_status = ''INGAME''\<rparr>,
           \<lparr>obs_id = 2, obs_time = 0, playerid = 1, obs_rating = SQL_INTEGER 1600, obs_status = ''INACTIVE''\<rparr>,
           \<lparr>obs_id = 3, obs_time = 0, playerid = 1, obs_rating = SQL_INTEGER 1500, obs_status = ''INGAME''\<rparr>,
           \<lparr>obs_id = 4, obs_time = 0, playerid = 1, obs_rating = SQL_INTEGER 1600, obs_status = ''INACTIVE''\<rparr>],
        players_seq = 1, observations_seq = 4\<rparr>,
     cont = None\<rparr>)"
  by code_simp

text \<open>
  C8. When the pass raises, whatever the statement that failed, the file holds what it
  held before the pass together with what the other connection committed: no row of
  \<^verbatim>\<open>observations\<close> is new, and the names of \<^verbatim>\<open>players\<close> are the earlier ones and those
  of the other connection.
\<close>

theorem runCycle_all_or_nothing:
  assumes "runCycle env db ps = (Some e, db')"
  shows "db' = raced env db \<and> observations db' = observations db \<and>
         set (SELECT_name db') = set (SELECT_name db) \<union> set (racing env)"
  using runCycle_Some [OF assms] raced_facts [of env db] by simp

text \<open>
  A pass with two new players makes five writes: two rows of \<^verbatim>\<open>players\<close>, two of
  \<^verbatim>\<open>observations\<close>, and the commit. Whichever of them the store fails at, the file is
  left as it was; the pass commits when all five succeed.
\<close>

theorem runCycle_all_or_nothing_witness:
  "runCycle (quiet\<lparr>io_budget := Some 0\<rparr>) empty_db
     [\<lparr>oid = 0, rating = ''1500'', status = ''NOT_OPEN'', name = ''Alice''\<rparr>,
      \<lparr>oid = 1, rating = ''2100'', status = ''INGAME'', name = ''Bob''\<rparr>] =
     (Some OperationalError, empty_db) \<and>
   runCycle (quiet\<lparr>io_budget := Some 1\<rparr>) empty_db
     [\<lparr>oid = 0, rating = ''1500'', status = ''NOT_OPEN'', name = ''Alice''\<rparr>,
      \<lparr>oid = 1, rating = ''2100'', status = ''INGAME'', name = ''Bob''\<rparr>] =
     (Some OperationalError, empty_db) \<and>
   runCycle (quiet\<lparr>io_budget := Some 2\<rparr>) empty_db
     [\<lparr>oid = 0, rating = ''1500'', status = ''NOT_OPEN'', name = ''Alice''\<rparr>,
      \<lparr>oid = 1, rating = ''2100'', status = ''INGAME'', name = ''Bob''\<rparr>] =
     (Some OperationalError, empty_db) \<and>
   runCycle (quiet\<lparr>io_budget := Some 3\<rparr>) empty_db
     [\<lparr>oid = 0, rating = ''1500'', status = ''NOT_OPEN'', name = ''Alice''\<rparr>,
      \<lparr>oid = 1, rating = ''2100'', status = ''INGAME'', name = ''Bob''\<rparr>] =
     (Some OperationalError, empty_db) \<and>
   runCycle (quiet\<lparr>io_budget := Some 4\<rparr>) empty_db
     [\<lparr>oid = 0, rating = ''1500'', status = ''NOT_OPEN'', name = ''Alice''\<rparr>,
      \<lparr>oid = 1, rating = ''2100'', status = ''INGAME'', name = ''Bob''\<rparr>] =
     (Some OperationalError, empty_db) \<and>
   fst (runCycle (quiet\<lparr>io_budget := Some 5\<rparr>) empty_db
     [\<lparr>oid = 0, rating = ''1500'', status = ''NOT_OPEN'', name = ''Alice''\<rparr>,
      \<lparr>oid = 1, rating = ''2100'', status = ''INGAME'', name = ''Bob''\<rparr>]) = None \<and>
   empty_db = raced (quiet\<lparr>io_budget := Some 3\<rparr>) empty_db \<and>
   observations empty_db = [] \<and> set (SELECT_name empty_db) = {}"
proof -
  let ?ps = "[\<lparr>oid = 0, rating = ''1500'', status = ''NOT_OPEN'', name = ''Alice''\<rparr>,
      \<lparr>oid = 1, rating = ''2100'', status = ''INGAME'', name = ''Bob''\<rparr>]"
  have run0: "runCycle (quiet\<lparr>io_budget := Some 0\<rparr>) empty_db ?ps = (Some OperationalError, empty_db)"
    by code_simp
  have run1: "runCycle (quiet\<lparr>io_budget := Some 1\<rparr>) empty_db ?ps = (Some OperationalError, empty_db)"
    by code_simp
  have run2: "runCycle (quiet\<lparr>io_budget := Some 2\<rparr>) empty_db ?ps = (Some OperationalError, empty_db)"
    by code_simp
  have run3: "runCycle (quiet\<lparr>io_budget := Some 3\<rparr>) empty_db ?ps = (Some OperationalError, empty_db)"
    by code_simp
  have run4: "runCycle (quiet\<lparr>io_budget := Some 4\<rparr>) empty_db ?ps = (Some OperationalError, empty_db)"
    by code_simp
  have run5: "fst (runCycle (quiet\<lparr>io_budget := Some 5\<rparr>) empty_db ?ps) = None"
    by code_simp
  from runCycle_all_or_nothing [OF run3] show ?thesis
    using run0 run1 run2 run3 run4 run5 by (simp add: empty_db_def quiet_def SELECT_name_def)
qed

text \<open>
  C3, as the code has it. The statement is a plain \<^verbatim>\<open>INSERT\<close>, and nothing catches
  sqlite3.IntegrityError. When a name that the pass takes for new is in the table by the
  time of the insert, the pass raises (IntegrityError, unless the store has failed
  before), its transaction is rolled back and the file holds no row of the pass: no row
  of \<^verbatim>\<open>observations\<close> is inserted.
\<close>

theorem runCycle_duplicate_name_aborts:
  assumes "n \<in> fresh db ps" and "n \<in> set (racing env)"
  shows "\<exists>e. runCycle env db ps = (Some e, raced env db) \<and>
           (io_budget env = None \<longrightarrow> e = IntegrityError) \<and>
           observations (raced env db) = observations db"
proof -
  let ?np = "filter (\<lambda>n. n \<notin> set (SELECT_name db)) (remdups (map name ps))"
  let ?con = "other_writer (racing env) (connect db (io_budget env))"
  note ow = other_writer_connect [of env db]
  have v0: "visible ?con = raced env db" using ow by (rule conjunct1)
  have b0: "budget ?con = io_budget env" using ow by (rule conjunct2 [THEN conjunct2])
  have 1: "n \<in> set ?np" using assms(1) newPlayers_set [of db ps] by simp
  have "n \<in> set (SELECT_name (raced env db))" using assms(2) raced_facts [of env db] by simp
  then have 2: "n \<in> set (SELECT_name (visible ?con))" using v0 by simp
  from executemany_players_conflict [OF 1 2] obtain e con' where
    e: "executemany INSERT_player ?np ?con = (Some e, con')" "budget ?con = None \<longrightarrow> e = IntegrityError"
    by (elim exE conjE)
  have "write_block env ?np ps ?con = (Some e, con')" using e(1) by (simp add: write_block_def)
  then have "with_con (write_block env ?np ps) ?con = (Some e, rollback con')" by (simp add: with_con_def)
  then have "runCycle env db ps = (Some e, durable (rollback con'))" by (simp add: runCycle_unfold)
  moreover from this have "durable (rollback con') = raced env db" by (rule runCycle_Some)
  ultimately have "runCycle env db ps = (Some e, raced env db)" by simp
  moreover have "io_budget env = None \<longrightarrow> e = IntegrityError" using e(2) b0 by simp
  moreover have "observations (raced env db) = observations db"
    using raced_facts [of env db] by (rule conjunct2 [THEN conjunct1])
  ultimately show ?thesis by (intro exI [of _ e] conjI)
qed

theorem runCycle_duplicate_name_aborts_witness:
  "\<exists>e. runCycle (quiet\<lparr>racing := [''Bob'']\<rparr>) empty_db
          [\<lparr>oid = 0, rating = ''1500'', status = ''NOT_OPEN'', name = ''Alice''\<rparr>,
           \<lparr>oid = 1, rating = ''2100'', status = ''INGAME'', name = ''Bob''\<rparr>] =
         (Some e, raced (quiet\<lparr>racing := [''Bob'']\<rparr>) empty_db) \<and>
       e = IntegrityError \<and>
       observations (raced (quiet\<lparr>racing := [''Bob'']\<rparr>) empty_db) = []"
proof -
  let ?ps = "[\<lparr>oid = 0, rating = ''1500'', status = ''NOT_OPEN'', name = ''Alice''\<rparr>,
           \<lparr>oid = 1, rating = ''2100'', status = ''INGAME'', name = ''Bob''\<rparr>]"
  have 1: "''Bob'' \<in> fresh empty_db ?ps" by (simp add: fresh_def empty_db_def SELECT_name_def)
  have 2: "''Bob'' \<in> set (racing (quiet\<lparr>racing := [''Bob'']\<rparr>))" by simp
  have 3: "io_budget (quiet\<lparr>racing := [''Bob'']\<rparr>) = None" by (simp add: quiet_def)
  have 4: "observations empty_db = []" by (simp add: empty_db_def)
  from runCycle_duplicate_name_aborts [OF 1 2] 3 4 show ?thesis by auto
qed

text \<open>
  Another connection inserts \<^verbatim>\<open>Bob\<close> after the pass has read the table: the pass
  raises IntegrityError and leaves no observation, for \<^verbatim>\<open>Bob\<close> or for anyone; the only
  row in the file is the other connection's. In the loop the exception is not caught.
\<close>

theorem runCycle_duplicate_name_not_tolerated:
  "runCycle (quiet\<lparr>racing := [''Bob'']\<rparr>) empty_db
     [\<lparr>oid = 0, rating = ''2100'', status = ''INGAME'', name = ''Bob''\<rparr>] =
     (Some IntegrityError,
      \<lparr>players = [(1, ''Bob'')], observations = [], players_seq = 1, observations_seq = 0\<rparr>) \<and>
   fst (loop [quiet\<lparr>racing := [''Bob'']\<rparr>, quiet]
     \<lparr>fics = \<lparr>cooked = ''2100^Bob players displayed fics% 2100^Bob players displayed fics%'',
              sock_ok = True, sent = []\<rparr>,
      fics_db = empty_db, cont = None\<rparr>) = Raised IntegrityError"
  by code_simp

text \<open>
  C10. The observation statement is an \<^verbatim>\<open>INSERT ... SELECT\<close> over the rows of
  \<^verbatim>\<open>players\<close> with the Player's name. For a Player whose name the table does not hold
  the statement inserts nothing and raises nothing: run on a connection whose store has
  not failed, it succeeds and leaves what the connection sees unchanged.
\<close>

theorem INSERT_observation_unknown_name:
  assumes "name p \<notin> set (SELECT_name (visible con))" and "budget con \<noteq> Some 0"
  shows "INSERT_observation t p (visible con) = Inr (visible con) \<and>
         (\<exists>con'. execute_write (INSERT_observation t p) con = (None, con') \<and> visible con' = visible con)"
proof -
  have a: "INSERT_observation t p (visible con) = Inr (visible con)"
    using assms(1) by (rule INSERT_observation_absent)
  from execute_write_Inr [where stmt = "INSERT_observation t p", OF assms(2) a]
  show ?thesis using a by blast
qed

theorem INSERT_observation_unknown_name_witness:
  "INSERT_observation 7 \<lparr>oid = 0, rating = ''2100'', status = ''INGAME'', name = ''Bob''\<rparr>
     \<lparr>players = [(1, ''Alice'')], observations = [], players_seq = 1, observations_seq = 0\<rparr> =
     Inr \<lparr>players = [(1, ''Alice'')], observations = [], players_seq = 1, observations_seq = 0\<rparr> \<and>
   (\<exists>con'. execute_write
       (INSERT_observation 7 \<lparr>oid = 0, rating = ''2100'', status = ''INGAME'', name = ''Bob''\<rparr>)
       (connect \<lparr>players = [(1, ''Alice'')], observations = [], players_seq = 1, observations_seq = 0\<rparr> None) =
       (None, con') \<and>
     visible con' = \<lparr>players = [(1, ''Alice'')], observations = [], players_seq = 1, observations_seq = 0\<rparr>)"
proof -
  let ?db = "\<lparr>players = [(1, ''Alice'')], observations = [], players_seq = 1, observations_seq = 0\<rparr>"
  let ?p = "\<lparr>oid = 0, rating = ''2100'', status = ''INGAME'', name = ''Bob''\<rparr>"
  have v: "visible (connect ?db None) = ?db" by (simp add: visible_def connect_def)
  have 1: "name ?p \<notin> set (SELECT_name (visible (connect ?db None)))"
    by (simp add: visible_def connect_def SELECT_name_def)
  have 2: "budget (connect ?db None) \<noteq> Some 0" by (simp add: connect_def)
  from INSERT_observation_unknown_name [OF 1 2, of 7] show ?thesis by (simp only: v)
qed

section \<open>Properties of the loop and of disconnect\<close>

text \<open>The exceptions that a poll can raise.\<close>

lemma frozenset_players_Inl: "frozenset_players i ts = Inl e \<Longrightarrow> \<exists>k. e = KeyError k"
proof (induction ts arbitrary: i)
  case Nil
  then show ?case by simp
next
  case (Cons t ts)
  show ?case
  proof (cases "WHO_REGEX_fullmatch t")
    case None
    then show ?thesis using Cons by simp
  next
    case (Some g)
    obtain r s n where g: "g = (r, s, n)" by (cases g)
    show ?thesis
    proof (cases "Player_init i r s n")
      case (Inl e')
      then have "e' = KeyError s" by (simp add: Player_init_def split: option.splits)
      moreover have "e' = e" using Cons.prems Some g Inl by simp
      ultimately show ?thesis by blast
    next
      case (Inr p)
      then have "frozenset_players (Suc i) ts = Inl e"
        using Cons.prems Some g by (simp split: sum.splits)
      then show ?thesis by (rule Cons.IH)
    qed
  qed
qed

lemma tn_read_until_Inl: "tn_read_until tn m = (Inl e, tn') \<Longrightarrow> e = EOFError"
  by (auto simp: tn_read_until_def split: option.splits if_splits)

lemma who_playerStrings_Inl:
  assumes "who_playerStrings tn = (Inl e, tn')"
  shows "e = OSError \<or> e = EOFError \<or> e = UnicodeDecodeError"
proof (cases "tn_write tn (''who'' @ [CHR 0x0A])")
  case (Inl e1)
  then have "e1 = OSError" by (simp add: tn_write_def split: if_splits)
  then show ?thesis using assms Inl by (simp add: who_playerStrings_def)
next
  case (Inr tn1)
  obtain r1 tn2 where r1: "tn_read_until tn1 ''players displayed'' = (r1, tn2)"
    by (cases "tn_read_until tn1 ''players displayed''")
  show ?thesis
  proof (cases r1)
    case (Inl e1)
    then have "e1 = EOFError" using r1 tn_read_until_Inl by blast
    then show ?thesis using assms Inr r1 Inl by (simp add: who_playerStrings_def)
  next
    case raw: (Inr raw)
    show ?thesis
    proof (cases "decode_ascii raw")
      case (Inl e1)
      then have "e1 = UnicodeDecodeError" by (simp add: decode_ascii_def split: if_splits)
      then show ?thesis using assms Inr r1 raw Inl by (simp add: who_playerStrings_def)
    next
      case dec: (Inr reply)
      obtain r2 tn3 where r2: "tn_read_until tn2 ''fics%'' = (r2, tn3)"
        by (cases "tn_read_until tn2 ''fics%''")
      show ?thesis
      proof (cases r2)
        case (Inl e1)
        then have "e1 = EOFError" using r2 tn_read_until_Inl by blast
        then show ?thesis using assms Inr r1 raw dec r2 Inl by (simp add: who_playerStrings_def)
      next
        case pr: (Inr prompt)
        then show ?thesis using assms Inr r1 raw dec r2 by (simp add: who_playerStrings_def)
      qed
    qed
  qed
qed

lemma who_Inl:
  assumes "who tn = (Inl e, tn')"
  shows "e \<noteq> KeyboardInterrupt \<and> e \<noteq> SystemExit"
proof -
  obtain r tn1 where r: "who_playerStrings tn = (r, tn1)" by (cases "who_playerStrings tn")
  show ?thesis
  proof (cases r)
    case (Inl e1)
    then have "e1 = e" using assms r by (simp add: who_def)
    then show ?thesis using who_playerStrings_Inl [of tn e tn1] r Inl by auto
  next
    case (Inr ts)
    then have "frozenset_players 0 ts = Inl e" using assms r by (simp add: who_def)
    then show ?thesis using frozenset_players_Inl by fastforce
  qed
qed

text \<open>
  C2, as the code has it. The \<^verbatim>\<open>try\<close> of \<^verbatim>\<open>loop()\<close> catches KeyboardInterrupt and
  SystemExit only, and \<^verbatim>\<open>who\<close> raises neither. When the poll of a pass raises, the
  pass writes nothing to the store, and the loop ends there: the exception leaves
  \<^verbatim>\<open>loop()\<close>, whatever passes would have followed.
\<close>

theorem loop_poll_exception_ends_loop:
  assumes "who (fics a) = (Inl e, tn')"
  shows "loop (env # envs) a = (Raised e, a\<lparr>fics := tn'\<rparr>) \<and>
         fics_db (snd (loop (env # envs) a)) = fics_db a"
proof -
  have "e \<noteq> KeyboardInterrupt \<and> e \<noteq> SystemExit" using assms by (rule who_Inl)
  then have "except_clause e (a\<lparr>fics := tn'\<rparr>) = (Raised e, a\<lparr>fics := tn'\<rparr>)"
    by (simp add: except_clause_def)
  then have "loop (env # envs) a = (Raised e, a\<lparr>fics := tn'\<rparr>)" using assms by simp
  then show ?thesis by simp
qed

theorem loop_poll_exception_ends_loop_witness:
  "loop [quiet, quiet]
     \<lparr>fics = \<lparr>cooked = ''1500^Bob players disp'', sock_ok = True, sent = []\<rparr>,
      fics_db = empty_db, cont = None\<rparr> =
     (Raised EOFError,
      \<lparr>fics = \<lparr>cooked = [], sock_ok = True, sent = [''who'' @ [CHR 0x0A]]\<rparr>,
       fics_db = empty_db, cont = None\<rparr>) \<and>
   fics_db (snd (loop [quiet, quiet]
     \<lparr>fics = \<lparr>cooked = ''1500^Bob players disp'', sock_ok = True, sent = []\<rparr>,
      fics_db = empty_db, cont = None\<rparr>)) = empty_db"
proof -
  let ?a = "\<lparr>fics = \<lparr>cooked = ''1500^Bob players disp'', sock_ok = True, sent = []\<rparr>,
      fics_db = empty_db, cont = None\<rparr>"
  have "who \<lparr>cooked = ''1500^Bob players disp'', sock_ok = True, sent = []\<rparr> =
      (Inl EOFError, \<lparr>cooked = [], sock_ok = True, sent = [''who'' @ [CHR 0x0A]]\<rparr>)"
    by code_simp
  then have w: "who (fics ?a) =
      (Inl EOFError, \<lparr>cooked = [], sock_ok = True, sent = [''who'' @ [CHR 0x0A]]\<rparr>)" by simp
  from loop_poll_exception_ends_loop [OF w, of quiet "[quiet]"] show ?thesis by simp
qed

text \<open>
  A reply with the token \<^verbatim>\<open>1923xFoo\<close>, followed by a well-formed reply: the loop
  ends with \<^verbatim>\<open>KeyError('x')\<close> after one \<^verbatim>\<open>who\<close> command, and the second reply is
  never read.
\<close>

theorem loop_poll_exception_no_retry:
  "loop [quiet, quiet]
     \<lparr>fics = \<lparr>cooked = ''1923xFoo players displayed fics% 1500^Bob players displayed fics%'',
              sock_ok = True, sent = []\<rparr>,
      fics_db = empty_db, cont = None\<rparr> =
   (Raised (KeyError ''x''),
    \<lparr>fics = \<lparr>cooked = '' 1500^Bob players displayed fics%'', sock_ok = True,
             sent = [''who'' @ [CHR 0x0A]]\<rparr>,
     fics_db = empty_db, cont = None\<rparr>)"
  by code_simp

text \<open>
  C9, as the code has it. \<^verbatim>\<open>disconnect\<close> writes the exit command and reads nothing.
  It has no guard of its own: on a connection whose socket accepts the write the command
  is sent, and on one whose socket does not, the OSError of \<^verbatim>\<open>write\<close> leaves
  \<^verbatim>\<open>disconnect\<close>.
\<close>

theorem disconnect_writes_exit:
  "(sock_ok tn \<longrightarrow>
      disconnect tn = Inr (tn\<lparr>sent := sent tn @ [''exit'' @ [CHR 0x0A]]\<rparr>)) \<and>
   (\<not> sock_ok tn \<longrightarrow> disconnect tn = Inl OSError)"
  by (simp add: disconnect_def tn_write_def)

theorem disconnect_writes_exit_witness:
  "disconnect \<lparr>cooked = ''fics%'', sock_ok = True, sent = []\<rparr> =
     Inr \<lparr>cooked = ''fics%'', sock_ok = True, sent = [''exit'' @ [CHR 0x0A]]\<rparr> \<and>
   disconnect \<lparr>cooked = [], sock_ok = False, sent = []\<rparr> = Inl OSError"
  using disconnect_writes_exit [of "\<lparr>cooked = ''fics%'', sock_ok = True, sent = []\<rparr>"]
    disconnect_writes_exit [of "\<lparr>cooked = [], sock_ok = False, sent = []\<rparr>"]
  by simp

text \<open>
  On a closed connection \<^verbatim>\<open>disconnect\<close> raises OSError, and so does the
  \<^verbatim>\<open>except\<close> clause of the loop that calls it through \<^verbatim>\<open>close\<close>.
\<close>

theorem disconnect_closed_connection_raises:
  "disconnect \<lparr>cooked = [], sock_ok = False, sent = []\<rparr> = Inl OSError \<and>
   except_clause KeyboardInterrupt
     \<lparr>fics = \<lparr>cooked = [], sock_ok = False, sent = []\<rparr>, fics_db = empty_db, cont = None\<rparr> =
     (Raised OSError,
      \<lparr>fics = \<lparr>cooked = [], sock_ok = False, sent = []\<rparr>, fics_db = empty_db, cont = Some False\<rparr>)"
  by code_simp

end
